theory Spec2Isabelle
  imports Complex_Main "HOL-Library.Word" "HOL-Library.Monad_Syntax"
begin

unbundle bit_operations_syntax

chapter \<open>The state-vector simulator of qforte\<close>

text \<open>
  A shallow embedding of \<^verbatim>\<open>src/qforte/quantum_computer.cc\<close>: the bit-encoded basis
  states (\<^verbatim>\<open>Basis\<close>), the register with its amplitude vector and its scratch vector
  (\<^verbatim>\<open>QuantumComputer\<close>), and the routines that apply a gate to it. Member functions that
  assign members are functions from the object before the call to the object after it;
  accesses that the language leaves undefined (an index past the end of a vector, an
  \<^verbatim>\<open>int\<close> shift or sum out of range) are the result \<open>None\<close>.
\<close>

section \<open>Vectors and loops\<close>

text \<open>
  \<^verbatim>\<open>std::vector::operator[]\<close> does not check its index: a read or a write at an index
  that is not below the size has no defined behaviour. The model makes that case the
  value \<open>None\<close>, so that a result \<open>Some\<close> says that every access was in range.
\<close>

definition vec_get :: "'x list \<Rightarrow> nat \<Rightarrow> 'x option" where
  "vec_get v i = (if i < length v then Some (v ! i) else None)"

definition vec_set :: "'x list \<Rightarrow> nat \<Rightarrow> 'x \<Rightarrow> 'x list option" where
  "vec_set v i x = (if i < length v then Some (v[i := x]) else None)"

text \<open>
  A \<^verbatim>\<open>for\<close> loop over a sequence whose body updates the state \<open>s\<close> and may fail.
  A counting loop \<^verbatim>\<open>for (size_t i = 0; i < n; i++)\<close> runs over \<open>[0..<n]\<close>.
\<close>

fun for_each :: "('x \<Rightarrow> 's \<Rightarrow> 's option) \<Rightarrow> 'x list \<Rightarrow> 's \<Rightarrow> 's option" where
  "for_each body [] s = Some s"
| "for_each body (x # xs) s =
     (case body x s of None \<Rightarrow> None | Some s' \<Rightarrow> for_each body xs s')"

text \<open>
  \<^verbatim>\<open>std::pow(2, e)\<close> with an \<^verbatim>\<open>int\<close> exponent, converted to \<^verbatim>\<open>size_t\<close> (64 bits):
  a negative exponent gives a value below 1, which truncates to 0; from \<open>2 ^ 64\<close> on the
  value does not fit and the conversion is undefined.
\<close>

definition pow2_size_t :: "int \<Rightarrow> nat option" where
  "pow2_size_t e = (if e < 0 then Some 0 else if e < 64 then Some (2 ^ nat e) else None)"

text \<open>The implicit conversion of an \<^verbatim>\<open>int\<close> argument to a \<^verbatim>\<open>size_t\<close> parameter.\<close>

definition size_t_of_int :: "int \<Rightarrow> nat" where
  "size_t_of_int n = nat (n mod 2 ^ 64)"

section \<open>Basis\<close>

text \<open>
  Modelled from the spec: the class \<^verbatim>\<open>Basis\<close> is declared in \<^verbatim>\<open>quantum_computer.h\<close>,
  which is not among the sources. Its one attribute \<^verbatim>\<open>state_\<close> is an unsigned integer
  of type \<^verbatim>\<open>basis_t\<close> whose bit \<open>i\<close> is the value of qubit \<open>i\<close>; it is taken to be 64 bits
  wide. A \<^verbatim>\<open>Basis\<close> is built from an index, or by default from index 0.
  A name cannot end with an underscore here: a member \<^verbatim>\<open>x_\<close> of the source is
  written \<open>x_m\<close>.
\<close>

type_synonym basis_t = "64 word"

datatype Basis = Basis (state_m: basis_t)

definition Basis_of :: "nat \<Rightarrow> Basis" where
  "Basis_of n = Basis (of_nat n)"

text \<open>
  Modelled from the spec: \<^verbatim>\<open>get_bit(i)\<close> returns bit \<open>i\<close> of \<^verbatim>\<open>state_\<close>;
  \<^verbatim>\<open>set_bit(i, value)\<close> sets bit \<open>i\<close> to the value and leaves all other bits unchanged;
  \<^verbatim>\<open>add()\<close> returns the integer index equal to \<^verbatim>\<open>state_\<close>. Their bodies are in the
  absent header. The source calls \<^verbatim>\<open>get_bit\<close> and \<^verbatim>\<open>add\<close> on \<^verbatim>\<open>const Basis&\<close>, and
  calls \<^verbatim>\<open>set_bit\<close> as a statement on a local copy whose index it reads afterwards:
  \<open>set_bit_basis\<close> maps the receiver before the call to the receiver after it.
\<close>

definition get_bit :: "Basis \<Rightarrow> nat \<Rightarrow> bool" where
  "get_bit b pos = bit (state_m b) pos"

definition set_bit_basis :: "nat \<Rightarrow> bool \<Rightarrow> Basis \<Rightarrow> Basis" where
  "set_bit_basis pos val b =
     Basis (if val then set_bit pos (state_m b) else unset_bit pos (state_m b))"

definition add :: "Basis \<Rightarrow> nat" where
  "add b = unat (state_m b)"

text \<open>
  \<^verbatim>\<open>Basis::str\<close>. The counter \<^verbatim>\<open>i\<close> is an \<^verbatim>\<open>int\<close> compared with the \<^verbatim>\<open>size_t\<close>
  \<^verbatim>\<open>nqubit\<close>: a count above \<^verbatim>\<open>INT_MAX\<close> would increment \<^verbatim>\<open>i\<close> past the largest
  \<^verbatim>\<open>int\<close>, which is undefined.
\<close>

definition Basis_str :: "nat \<Rightarrow> Basis \<Rightarrow> string option" where
  "Basis_str nqubit b =
     (if nqubit \<le> 2147483647 then
        Some (fold (\<lambda>i s. if get_bit b i then s @ ''1'' else s @ ''0'') [0..<nqubit] ''|''
              @ ''>'')
      else None)"

text \<open>
  The expression \<^verbatim>\<open>(1 << pos) - 1\<close> of \<^verbatim>\<open>Basis::insert\<close>. The literal \<^verbatim>\<open>1\<close> is an
  \<^verbatim>\<open>int\<close> (32 bits), so the shift and the subtraction are \<^verbatim>\<open>int\<close> operations: a shift
  count of 32 or more is undefined, and with a count of 31 the subtraction overflows.
\<close>

definition int_shl1_minus1 :: "nat \<Rightarrow> int option" where
  "int_shl1_minus1 pos = (if pos < 31 then Some (push_bit pos 1 - 1) else None)"

text \<open>
  \<^verbatim>\<open>Basis::insert\<close> is a non-const member: it assigns \<^verbatim>\<open>state_\<close> and returns \<^verbatim>\<open>*this\<close>.
  \<open>insert_basis pos b\<close> is the receiver after the call on a receiver \<open>b\<close>; the returned
  reference denotes that same object.
\<close>

definition insert_basis :: "nat \<Rightarrow> Basis \<Rightarrow> Basis option" where
  "insert_basis pos b =
     (let temp = state_m b;
          shifted = push_bit 1 (state_m b)
      in case int_shl1_minus1 pos of
           None \<Rightarrow> None
         | Some m \<Rightarrow>
             let maskv = (word_of_int m :: basis_t)
             in Some (Basis (shifted XOR ((shifted XOR temp) AND maskv))))"

text \<open>
  The member functions of \<^verbatim>\<open>Basis\<close> as calls on a receiver: the receiver after the call.
  \<^verbatim>\<open>get_bit\<close> and \<^verbatim>\<open>add\<close> are const; \<^verbatim>\<open>set_bit\<close> and \<^verbatim>\<open>insert\<close> assign \<^verbatim>\<open>state_\<close>.
\<close>

datatype Basis_call = Get_bit nat | Set_bit nat bool | Add | Insert nat

fun receiver_after :: "Basis_call \<Rightarrow> Basis \<Rightarrow> Basis option" where
  "receiver_after (Get_bit pos) b = Some b"
| "receiver_after (Set_bit pos val) b = Some (set_bit_basis pos val b)"
| "receiver_after Add b = Some b"
| "receiver_after (Insert pos) b = insert_basis pos b"

section \<open>QuantumGate\<close>

text \<open>
  Modelled from the spec: \<^verbatim>\<open>QuantumGate\<close> is declared in \<^verbatim>\<open>quantum_gate.h\<close>, which is
  not among the sources. It supplies the gate's qubit count, its target and control qubit
  and a square matrix, read here as \<open>gate qg i j\<close> for \<^verbatim>\<open>qg.gate()[i][j]\<close>; the source
  reads it only at \<open>i, j < 2\<close> for one qubit and \<open>i, j < 4\<close> for two.
\<close>

record 'a QuantumGate =
  nqubits :: int
  target :: nat
  control :: nat
  gate :: "nat \<Rightarrow> nat \<Rightarrow> 'a"

text \<open>
  Modelled from the spec: \<^verbatim>\<open>QuantumGate::two_qubits_basis()\<close>, the four (control bit,
  target bit) combinations in binary counting order with the control bit as the
  higher-order bit. \<open>apply_2qubit_gate\<close> takes the table as a parameter.
\<close>

definition two_qubits_basis :: "(nat \<times> nat) list" where
  "two_qubits_basis = [(0, 0), (0, 1), (1, 0), (1, 1)]"

section \<open>QuantumComputer\<close>

text \<open>
  The amplitudes are \<^verbatim>\<open>std::complex<double>\<close>. The model is parametric in the amplitude
  type \<open>'a\<close>: the code only uses its zero, its one, its addition and its multiplication.
\<close>

record 'a QuantumComputer =
  nqubit_m :: int
  nbasis_m :: nat
  basis_m :: "Basis list"
  coeff_m :: "'a list"
  new_coeff_m :: "'a list"

definition QuantumComputer_new :: "int \<Rightarrow> ('a::{zero,one}) QuantumComputer option" where
  "QuantumComputer_new nqubit =
     do {
       nbasis \<leftarrow> pow2_size_t nqubit;
       let basis0 = replicate nbasis (Basis 0);
       let coeff0 = replicate nbasis (0::'a);
       let new_coeff0 = replicate nbasis (0::'a);
       basis1 \<leftarrow> for_each (\<lambda>i bs. vec_set bs i (Basis_of i)) [0..<nbasis] basis0;
       coeff1 \<leftarrow> vec_set coeff0 0 1;
       Some \<lparr>nqubit_m = nqubit, nbasis_m = nbasis, basis_m = basis1,
             coeff_m = coeff1, new_coeff_m = new_coeff0\<rparr>
     }"

definition coeff :: "'a QuantumComputer \<Rightarrow> Basis \<Rightarrow> 'a option" where
  "coeff qc basis = vec_get (coeff_m qc) (add basis)"

definition set_state ::
  "(Basis \<times> 'a) list \<Rightarrow> ('a::zero) QuantumComputer \<Rightarrow> 'a QuantumComputer option" where
  "set_state state qc =
     for_each
       (\<lambda>basis_c q. do {
          v \<leftarrow> vec_set (coeff_m q) (add (fst basis_c)) (snd basis_c);
          Some (q\<lparr>coeff_m := v\<rparr>)
        })
       state
       (qc\<lparr>coeff_m := map (\<lambda>_. 0) (coeff_m qc)\<rparr>)"

text \<open>The statement \<^verbatim>\<open>new_coeff_[I] += op_i_j * coeff_[J]\<close>.\<close>

definition accumulate ::
  "nat \<Rightarrow> 'a \<Rightarrow> nat \<Rightarrow> ('a::{plus,times}) QuantumComputer \<Rightarrow> 'a QuantumComputer option" where
  "accumulate I op_i_j J q =
     do {
       c \<leftarrow> vec_get (coeff_m q) J;
       n \<leftarrow> vec_get (new_coeff_m q) I;
       v \<leftarrow> vec_set (new_coeff_m q) I (n + op_i_j * c);
       Some (q\<lparr>new_coeff_m := v\<rparr>)
     }"

definition apply_1qubit_gate ::
  "'a QuantumGate \<Rightarrow> ('a::{plus,times}) QuantumComputer \<Rightarrow> 'a QuantumComputer option" where
  "apply_1qubit_gate qg qc =
     for_each (\<lambda>i. for_each (\<lambda>j.
         let op_i_j = gate qg i j in
         for_each (\<lambda>basis_J q.
             if of_bool (get_bit basis_J (target qg)) = j then
               let basis_I = set_bit_basis (target qg) (i \<noteq> 0) basis_J
               in accumulate (add basis_I) op_i_j (add basis_J) q
             else Some q)
           (basis_m qc))
         [0..<2])
       [0..<2] qc"

definition apply_1qubit_gate_insertion ::
  "'a QuantumGate \<Rightarrow> ('a::{plus,times}) QuantumComputer \<Rightarrow> 'a QuantumComputer option" where
  "apply_1qubit_gate_insertion qg qc =
     (case pow2_size_t (nqubit_m qc - 1) of
        None \<Rightarrow> None
      | Some nbasis_minus1 \<Rightarrow>
          for_each (\<lambda>i. for_each (\<lambda>j.
              let op_i_j = gate qg i j in
              for_each (\<lambda>K q.
                  case insert_basis (target qg) (Basis_of K) of
                    None \<Rightarrow> None
                  | Some basis_K \<Rightarrow>
                      let basis_I = set_bit_basis (target qg) (i \<noteq> 0) basis_K;
                          basis_J = set_bit_basis (target qg) (j \<noteq> 0) basis_K
                      in accumulate (add basis_I) op_i_j (add basis_J) q)
                [0..<nbasis_minus1])
              [0..<2])
            [0..<2] qc)"

definition apply_2qubit_gate ::
  "(nat \<times> nat) list \<Rightarrow> 'a QuantumGate \<Rightarrow> ('a::{plus,times}) QuantumComputer
     \<Rightarrow> 'a QuantumComputer option" where
  "apply_2qubit_gate tqb qg qc =
     for_each (\<lambda>i q0. do {
         ci \<leftarrow> vec_get tqb i;
         let i_c = fst ci;
         let i_t = snd ci;
         for_each (\<lambda>j q1. do {
             cj \<leftarrow> vec_get tqb j;
             let j_c = fst cj;
             let j_t = snd cj;
             let op_i_j = gate qg i j;
             for_each (\<lambda>basis_J q.
                 if of_bool (get_bit basis_J (control qg)) = j_c
                    \<and> of_bool (get_bit basis_J (target qg)) = j_t then
                   let basis_I = set_bit_basis (control qg) (i_c \<noteq> 0) basis_J;
                       basis_I = set_bit_basis (target qg) (i_t \<noteq> 0) basis_I
                   in accumulate (add basis_I) op_i_j (add basis_J) q
                 else Some q)
               (basis_m qc) q1
           })
           [0..<4] q0
       })
       [0..<4] qc"

definition apply_gate ::
  "'a QuantumGate \<Rightarrow> ('a::{zero,plus,times}) QuantumComputer \<Rightarrow> 'a QuantumComputer option" where
  "apply_gate qg qc =
     do {
       qc1 \<leftarrow> (if nqubits qg = 1 then apply_1qubit_gate qg qc else Some qc);
       Some (qc1\<lparr>coeff_m := new_coeff_m qc1, new_coeff_m := map (\<lambda>_. 0) (new_coeff_m qc1)\<rparr>)
     }"

definition apply_circuit ::
  "'a QuantumGate list \<Rightarrow> ('a::{zero,plus,times}) QuantumComputer \<Rightarrow> 'a QuantumComputer option" where
  "apply_circuit gates qc = for_each apply_gate gates qc"

text \<open>
  \<^verbatim>\<open>QuantumComputer::str\<close> is a const member: its model returns the list of terms only.
  The library functions it calls are parameters: \<open>cabs\<close> for \<^verbatim>\<open>std::abs\<close>, and \<open>fmt c s\<close>
  for \<^verbatim>\<open>fmt::format\<close> applied to the real part and the imaginary part of \<open>c\<close> and to the
  rendered basis state \<open>s\<close>. The threshold \<^verbatim>\<open>print_threshold_\<close> is declared outside the
  sources and is a parameter too.
\<close>

definition QuantumComputer_str ::
  "('a \<Rightarrow> real) \<Rightarrow> ('a \<Rightarrow> string \<Rightarrow> string) \<Rightarrow> real \<Rightarrow> 'a QuantumComputer
     \<Rightarrow> string list option" where
  "QuantumComputer_str cabs fmt print_threshold qc =
     for_each (\<lambda>i terms. do {
         c \<leftarrow> vec_get (coeff_m qc) i;
         if cabs c \<ge> print_threshold then do {
           b \<leftarrow> vec_get (basis_m qc) i;
           s \<leftarrow> Basis_str (size_t_of_int (nqubit_m qc)) b;
           Some (terms @ [fmt c s])
         } else Some terms
       })
       [0..<nbasis_m qc] []"

section \<open>Specification functions\<close>

text \<open>The ket of a basis state, qubit 0 first: what \<open>Basis_str\<close> returns.\<close>

definition ket :: "nat \<Rightarrow> Basis \<Rightarrow> string" where
  "ket nqubit b =
     ''|'' @ map (\<lambda>i. if get_bit b i then CHR ''1'' else CHR ''0'') [0..<nqubit] @ ''>''"

text \<open>
  The invariant of a register: the qubit count is in the range the constructor accepts,
  the three vectors have \<open>2 ^ N\<close> entries, and entry \<open>i\<close> of \<open>basis_m\<close> is \<open>Basis_of i\<close>.
\<close>

definition wf_qc :: "'a QuantumComputer \<Rightarrow> bool" where
  "wf_qc qc \<longleftrightarrow>
     0 \<le> nqubit_m qc \<and> nqubit_m qc < 64 \<and> nbasis_m qc = 2 ^ nat (nqubit_m qc) \<and>
     length (coeff_m qc) = nbasis_m qc \<and> length (new_coeff_m qc) = nbasis_m qc \<and>
     basis_m qc = map Basis_of [0..<nbasis_m qc]"

text \<open>The index \<open>I\<close> with bit \<open>t\<close> forced to \<open>v\<close>.\<close>

definition put_bit :: "nat \<Rightarrow> bool \<Rightarrow> nat \<Rightarrow> nat" where
  "put_bit t v I = (if v then set_bit t I else unset_bit t I)"

text \<open>
  The scratch vector after accumulations: entry \<open>I\<close> of \<open>nc\<close> with the amounts \<open>L I\<close>
  added to it one after the other, in the order of the list.
\<close>

definition accumulated :: "('a::plus) list \<Rightarrow> (nat \<Rightarrow> 'a list) \<Rightarrow> 'a list" where
  "accumulated nc L = map (\<lambda>I. foldl (+) (nc ! I) (L I)) [0..<length nc]"

text \<open>
  A spectator configuration \<open>K\<close> with a zero bit inserted at position \<open>t\<close>, and an index
  \<open>I\<close> with its bit \<open>t\<close> taken out.
\<close>

definition ins_bit :: "nat \<Rightarrow> nat \<Rightarrow> nat" where
  "ins_bit t K = take_bit t K OR push_bit (Suc t) (drop_bit t K)"

definition del_bit :: "nat \<Rightarrow> nat \<Rightarrow> nat" where
  "del_bit t I = take_bit t I OR push_bit t (drop_bit (Suc t) I)"

section \<open>Loops\<close>

lemma for_each_append:
  "for_each f (xs @ ys) s = (case for_each f xs s of None \<Rightarrow> None | Some s' \<Rightarrow> for_each f ys s')"
  by (induction xs arbitrary: s) (auto split: option.splits)

lemma for_each_snoc:
  "for_each f (xs @ [x]) s = (case for_each f xs s of None \<Rightarrow> None | Some s' \<Rightarrow> f x s')"
  by (simp add: for_each_append split: option.splits)

lemma for_each_upt_Suc:
  "for_each f [0..<Suc n] s = (case for_each f [0..<n] s of None \<Rightarrow> None | Some s' \<Rightarrow> f n s')"
  by (simp add: for_each_snoc)

lemma fill_basis:
  "m \<le> length bs \<Longrightarrow>
   for_each (\<lambda>i v. vec_set v i (f i)) [0..<m] bs = Some (map f [0..<m] @ drop m bs)"
proof (induction m)
  case 0
  then show ?case by simp
next
  case (Suc m)
  then have "m < length bs" by simp
  then have "(map f [0..<m] @ drop m bs)[m := f m] = map f [0..<m] @ f m # drop (Suc m) bs"
    by (simp add: list_update_append Cons_nth_drop_Suc [symmetric] del: upt_Suc)
  with Suc show ?case
    by (simp add: for_each_upt_Suc vec_set_def del: upt_Suc) simp
qed

lemma QuantumComputer_new_eq:
  assumes "0 \<le> N" "N < 64"
  shows "QuantumComputer_new N =
     Some \<lparr>nqubit_m = N, nbasis_m = 2 ^ nat N, basis_m = map Basis_of [0..<2 ^ nat N],
           coeff_m = (replicate (2 ^ nat N) 0)[0 := 1], new_coeff_m = replicate (2 ^ nat N) 0\<rparr>"
  using assms
  by (simp add: QuantumComputer_new_def pow2_size_t_def fill_basis Let_def)
     (simp add: vec_set_def)

section \<open>The constructor\<close>




section \<open>Basis::insert\<close>

lemma bit_insert_word:
  fixes s :: basis_t
  shows "bit (push_bit 1 s XOR ((push_bit 1 s XOR s) AND mask pos)) k \<longleftrightarrow>
    (if k < pos then bit s k else k \<noteq> 0 \<and> k < 64 \<and> bit s (k - 1))"
proof -
  have d: "bit (push_bit 1 s) k \<longleftrightarrow> k \<noteq> 0 \<and> k < 64 \<and> bit s (k - 1)"
    by (auto simp only: bit_push_bit_iff possible_bit_word dest: bit_imp_le_length) (auto dest: bit_imp_le_length)
  show ?thesis
    unfolding bit_xor_iff bit_and_iff bit_mask_iff d
    by (auto dest: bit_imp_le_length)
qed

lemma insert_basis_Some:
  "pos < 31 \<Longrightarrow> insert_basis pos b =
     Some (Basis (push_bit 1 (state_m b) XOR ((push_bit 1 (state_m b) XOR state_m b) AND mask pos)))"
  by (simp add: insert_basis_def int_shl1_minus1_def mask_eq_exp_minus_1 Let_def)

lemma insert_basis_None: "31 \<le> pos \<Longrightarrow> insert_basis pos b = None"
  by (simp add: insert_basis_def int_shl1_minus1_def)

lemma get_bit_inserted:
  "get_bit (Basis (push_bit 1 s XOR ((push_bit 1 s XOR s) AND mask pos))) k \<longleftrightarrow>
     (if k < pos then get_bit (Basis s) k else k \<noteq> 0 \<and> k < 64 \<and> get_bit (Basis s) (k - 1))"
  unfolding get_bit_def Basis.sel by (rule bit_insert_word)

lemma insert_basis_bits:
  assumes "pos < 31"
  shows "\<exists>b'. insert_basis pos b = Some b' \<and>
     (\<forall>k. get_bit b' k \<longleftrightarrow>
        (if k < pos then get_bit b k else k \<noteq> 0 \<and> k < 64 \<and> get_bit b (k - 1)))"
proof (cases b)
  case (Basis s)
  show ?thesis
    unfolding Basis insert_basis_Some [OF assms] Basis.sel
    using get_bit_inserted [of s pos] by blast
qed

text \<open>
  C3, as the code has it. For \<open>pos < 31\<close>, \<open>insert(pos)\<close> returns the value whose bits
  strictly below \<open>pos\<close> are those of the receiver and whose bits strictly above \<open>pos\<close>
  are the receiver's bits at or above \<open>pos\<close>, moved up by one (bit 63 is shifted out).
  The bit at \<open>pos\<close> is not cleared: it is 0 for \<open>pos = 0\<close> and otherwise a copy of the
  receiver's bit \<open>pos - 1\<close>.
\<close>

theorem insert_bits:
  assumes "pos < 31"
  shows "\<exists>b'. insert_basis pos b = Some b' \<and>
     (\<forall>k < pos. get_bit b' k \<longleftrightarrow> get_bit b k) \<and>
     (get_bit b' pos \<longleftrightarrow> pos \<noteq> 0 \<and> get_bit b (pos - 1)) \<and>
     (\<forall>k > pos. get_bit b' k \<longleftrightarrow> k < 64 \<and> get_bit b (k - 1))"
proof -
  obtain b' where b': "insert_basis pos b = Some b'"
    "\<And>k. get_bit b' k \<longleftrightarrow>
        (if k < pos then get_bit b k else k \<noteq> 0 \<and> k < 64 \<and> get_bit b (k - 1))"
    using insert_basis_bits [OF assms, of b] by blast
  have "get_bit b' pos \<longleftrightarrow> pos \<noteq> 0 \<and> get_bit b (pos - 1)"
    using b'(2) [of pos] assms by auto
  moreover have "\<forall>k < pos. get_bit b' k \<longleftrightarrow> get_bit b k"
    using b'(2) by simp
  moreover have "\<forall>k > pos. get_bit b' k \<longleftrightarrow> k < 64 \<and> get_bit b (k - 1)"
    using b'(2) by auto
  ultimately show ?thesis using b'(1) by blast
qed

theorem insert_bits_witness:
  "(2::nat) < 31 \<and> insert_basis 2 (Basis 6) = Some (Basis 14) \<and>
   get_bit (Basis 14) 2 \<and> get_bit (Basis 6) 1 \<and> get_bit (Basis 14) 3 \<and> \<not> get_bit (Basis 14) 0"
  using insert_bits [of 2 "Basis 6"]
  by (simp add: insert_basis_def int_shl1_minus1_def get_bit_def)

text \<open>
  C3 as stated fails: \<open>insert(1)\<close> on the value 1 gives 3, whose bit 1 is set.
\<close>

theorem insert_slot_not_cleared:
  "insert_basis 1 (Basis 1) = Some (Basis 3) \<and> get_bit (Basis 3) 1"
  by (simp add: insert_basis_def int_shl1_minus1_def get_bit_def)

section \<open>Receivers of the Basis member functions\<close>

lemma get_bit_set_bit_basis:
  "get_bit (set_bit_basis pos v b) k \<longleftrightarrow> (if k = pos \<and> pos < 64 then v else get_bit b k)"
  by (auto simp: get_bit_def set_bit_basis_def bit_simps dest: bit_imp_le_length)

text \<open>
  C4, as the code has it. \<open>get_bit\<close> and \<open>add\<close> leave the receiver as it was.
  \<open>set_bit(pos, v)\<close> and \<open>insert(pos)\<close> assign the receiver's state: after \<open>set_bit\<close> the
  receiver has bit \<open>pos\<close> equal to \<open>v\<close> and its other bits unchanged; after \<open>insert(pos)\<close>
  with \<open>pos < 31\<close> the receiver holds the inserted value, which is another value than
  before whenever the receiver's bit \<open>pos\<close> differs from its bit \<open>pos - 1\<close> (from 0
  for \<open>pos = 0\<close>).
\<close>

theorem basis_calls_receiver:
  "receiver_after (Get_bit pos) b = Some b \<and> receiver_after Add b = Some b \<and>
   (\<exists>b'. receiver_after (Set_bit pos v) b = Some b' \<and>
      (\<forall>k. get_bit b' k \<longleftrightarrow> (if k = pos \<and> pos < 64 then v else get_bit b k))) \<and>
   (pos < 31 \<longrightarrow>
      (\<exists>b'. receiver_after (Insert pos) b = Some b' \<and>
         (\<forall>k. get_bit b' k \<longleftrightarrow>
            (if k < pos then get_bit b k else k \<noteq> 0 \<and> k < 64 \<and> get_bit b (k - 1))))) \<and>
   (pos < 31 \<and> (get_bit b pos \<noteq> (pos \<noteq> 0 \<and> get_bit b (pos - 1)))
      \<longrightarrow> receiver_after (Insert pos) b \<noteq> Some b)"
proof -
  have "receiver_after (Insert pos) b \<noteq> Some b"
    if "pos < 31" "get_bit b pos \<noteq> (pos \<noteq> 0 \<and> get_bit b (pos - 1))"
  proof
    assume "receiver_after (Insert pos) b = Some b"
    with insert_basis_bits [OF that(1), of b]
    have "\<forall>k. get_bit b k \<longleftrightarrow>
        (if k < pos then get_bit b k else k \<noteq> 0 \<and> k < 64 \<and> get_bit b (k - 1))"
      by simp
    then have "get_bit b pos \<longleftrightarrow> pos \<noteq> 0 \<and> pos < 64 \<and> get_bit b (pos - 1)"
      by (drule_tac x = pos in spec) simp
    with that show False by auto
  qed
  then show ?thesis
    using insert_basis_bits [of pos b] by (auto simp: get_bit_set_bit_basis)
qed

theorem basis_calls_receiver_witness:
  "receiver_after (Get_bit 0) (Basis 1) = Some (Basis 1) \<and>
   receiver_after Add (Basis 1) = Some (Basis 1) \<and>
   receiver_after (Set_bit 0 False) (Basis 1) = Some (Basis 0) \<and>
   (0::nat) < 31 \<and> get_bit (Basis 1) 0 \<and>
   receiver_after (Insert 0) (Basis 1) = Some (Basis 2) \<and>
   receiver_after (Insert 0) (Basis 1) \<noteq> Some (Basis 1)"
proof -
  have "set_bit_basis 0 False (Basis 1) = Basis 0"
    by code_simp
  then show ?thesis
    using basis_calls_receiver [of 0 "Basis 1" False]
    by (simp add: insert_basis_def int_shl1_minus1_def get_bit_def)
qed

text \<open>
  C4 as stated fails: \<open>insert(0)\<close> on a receiver holding 1 leaves it holding 2.
\<close>

theorem insert_mutates_receiver:
  "receiver_after (Insert 0) (Basis 1) = Some (Basis 2) \<and>
   receiver_after (Insert 0) (Basis 1) \<noteq> Some (Basis 1)"
  by (simp add: insert_basis_def int_shl1_minus1_def)

section \<open>Basis::str\<close>

lemma fold_append_digits:
  "fold (\<lambda>i s. if p i then s @ ''1'' else s @ ''0'') xs s0
     = s0 @ map (\<lambda>i. if p i then CHR ''1'' else CHR ''0'') xs"
  by (induction xs arbitrary: s0) auto

lemma Basis_str_ket:
  "Basis_str nqubit b = (if nqubit \<le> 2147483647 then Some (ket nqubit b) else None)"
  by (simp add: Basis_str_def ket_def fold_append_digits)

text \<open>
  C8, as the code has it. For \<open>nqubit\<close> up to \<^verbatim>\<open>INT_MAX\<close>, \<open>Basis_str\<close> returns a string of
  \<open>nqubit + 2\<close> characters: a bar, then the digit of bit \<open>k\<close> at position \<open>k + 1\<close> for
  every \<open>k < nqubit\<close>, then the closing bracket. The least significant qubit comes
  first: the character after the bar is bit 0 and the one before the bracket is bit
  \<open>nqubit - 1\<close>.
\<close>

theorem Basis_str_order:
  assumes "nqubit \<le> 2147483647"
  shows "\<exists>s. Basis_str nqubit b = Some s \<and> length s = nqubit + 2 \<and>
     s ! 0 = CHR ''|'' \<and> s ! (nqubit + 1) = CHR ''>'' \<and>
     (\<forall>k < nqubit. s ! (k + 1) = (if get_bit b k then CHR ''1'' else CHR ''0''))"
  using assms by (simp add: Basis_str_ket ket_def nth_append)

theorem Basis_str_order_witness:
  "(2::nat) \<le> 2147483647 \<and> Basis_str 2 (Basis 1) = Some ''|10>'' \<and>
   get_bit (Basis 1) 0 \<and> \<not> get_bit (Basis 1) 1"
  using Basis_str_order [of 2 "Basis 1"]
  by (simp add: Basis_str_def get_bit_def upt_rec)

text \<open>
  C8 as stated fails: basis state 1 on two qubits is rendered as \<open>|10>\<close>; the character
  after the bar is the digit of bit 0, not of bit 1.
\<close>

theorem Basis_str_lsb_first:
  "Basis_str 2 (Basis 1) = Some ''|10>'' \<and> get_bit (Basis 1) 0 \<and> \<not> get_bit (Basis 1) 1"
  by (simp add: Basis_str_def get_bit_def upt_rec)

section \<open>set_state\<close>

lemma set_state_loop:
  assumes "\<forall>p \<in> set state. add (fst p) < length (coeff_m q)"
  shows "for_each (\<lambda>basis_c q. do {
             v \<leftarrow> vec_set (coeff_m q) (add (fst basis_c)) (snd basis_c);
             Some (q\<lparr>coeff_m := v\<rparr>) }) state q
         = Some (q\<lparr>coeff_m := fold (\<lambda>p v. v[add (fst p) := snd p]) state (coeff_m q)\<rparr>)"
  using assms
  by (induction state arbitrary: q) (auto simp: vec_set_def)

lemma fold_update_length:
  "length (fold (\<lambda>p v. v[f p := g p]) xs v) = length v"
  by (induction xs arbitrary: v) auto

lemma fold_update_other:
  "i \<notin> f ` set xs \<Longrightarrow> fold (\<lambda>p v. v[f p := g p]) xs v ! i = v ! i"
  by (induction xs arbitrary: v) auto

lemma fold_update_last:
  assumes "f p < length v" "f p \<notin> f ` set post"
  shows "fold (\<lambda>p v. v[f p := g p]) (pre @ p # post) v ! f p = g p"
  using assms by (simp add: fold_update_other fold_update_length)

text \<open>
  C6. When every index of the input is in range, \<open>set_state\<close> returns a register in
  which the coefficient at the index of a pair that no later pair of the input
  overwrites is that pair's amplitude, and the coefficient at every index that no pair
  mentions is 0, whatever the coefficients were before; no other member changes.
\<close>

theorem set_state_last_write_wins:
  assumes "\<forall>p \<in> set state. add (fst p) < length (coeff_m qc)"
  shows "\<exists>qc'. set_state state qc = Some qc'
     \<and> length (coeff_m qc') = length (coeff_m qc)
     \<and> (\<forall>pre b a post. state = pre @ (b, a) # post \<and> (\<forall>p \<in> set post. add (fst p) \<noteq> add b)
            \<longrightarrow> coeff_m qc' ! add b = a)
     \<and> (\<forall>i < length (coeff_m qc). (\<forall>p \<in> set state. add (fst p) \<noteq> i) \<longrightarrow> coeff_m qc' ! i = 0)
     \<and> nqubit_m qc' = nqubit_m qc \<and> nbasis_m qc' = nbasis_m qc \<and> basis_m qc' = basis_m qc
     \<and> new_coeff_m qc' = new_coeff_m qc"
proof -
  let ?q0 = "qc\<lparr>coeff_m := map (\<lambda>_. 0) (coeff_m qc)\<rparr>"
  let ?v = "fold (\<lambda>p v. v[add (fst p) := snd p]) state (map (\<lambda>_. 0) (coeff_m qc))"
  have eq: "set_state state qc = Some (qc\<lparr>coeff_m := ?v\<rparr>)"
    unfolding set_state_def using set_state_loop [of state ?q0] assms by simp
  have last: "?v ! add b = a"
    if "state = pre @ (b, a) # post" "\<forall>p \<in> set post. add (fst p) \<noteq> add b" for pre b a post
  proof -
    have "add b < length (map (\<lambda>_. 0::'a) (coeff_m qc))"
      using assms that(1) by simp
    moreover have "add b \<notin> (\<lambda>p. add (fst p)) ` set post"
      using that(2) by auto
    ultimately show ?thesis
      unfolding that(1)
      using fold_update_last [of "\<lambda>p. add (fst p)" "(b, a)" _ post snd pre] by simp
  qed
  have other: "?v ! i = 0"
    if "i < length (coeff_m qc)" "\<forall>p \<in> set state. add (fst p) \<noteq> i" for i
  proof -
    have "i \<notin> (\<lambda>p. add (fst p)) ` set state" using that(2) by auto
    then show ?thesis using that(1) by (simp add: fold_update_other)
  qed
  define qc' where "qc' = qc\<lparr>coeff_m := ?v\<rparr>"
  have sel: "coeff_m qc' = ?v" "nqubit_m qc' = nqubit_m qc" "nbasis_m qc' = nbasis_m qc"
    "basis_m qc' = basis_m qc" "new_coeff_m qc' = new_coeff_m qc"
    by (simp_all add: qc'_def)
  have len: "length (coeff_m qc') = length (coeff_m qc)"
    unfolding sel by (simp add: fold_update_length)
  have "set_state state qc = Some qc'"
    unfolding qc'_def by (rule eq)
  moreover have "\<forall>pre b a post.
      state = pre @ (b, a) # post \<and> (\<forall>p \<in> set post. add (fst p) \<noteq> add b)
        \<longrightarrow> coeff_m qc' ! add b = a"
    unfolding sel using last by blast
  moreover have "\<forall>i < length (coeff_m qc).
      (\<forall>p \<in> set state. add (fst p) \<noteq> i) \<longrightarrow> coeff_m qc' ! i = 0"
    unfolding sel using other by blast
  ultimately show ?thesis
    using len sel(2-5) by blast
qed

theorem set_state_last_write_wins_witness:
  "add (Basis 1) < length [5, 6 :: complex] \<and>
   map_option coeff_m
     (set_state [(Basis 1, 2), (Basis 1, 3 :: complex)]
        \<lparr>nqubit_m = 1, nbasis_m = 2, basis_m = [Basis 0, Basis 1],
         coeff_m = [5, 6], new_coeff_m = [0, 0]\<rparr>) = Some [0, 3]"
proof -
  let ?qc = "\<lparr>nqubit_m = 1, nbasis_m = 2, basis_m = [Basis 0, Basis 1],
         coeff_m = [5, 6 :: complex], new_coeff_m = [0, 0]\<rparr>"
  let ?st = "[(Basis 1, 2), (Basis 1, 3 :: complex)]"
  have a: "add (Basis 1) = 1" by (simp add: add_def)
  have two: "xs = [xs ! 0, xs ! 1]" if "length xs = 2" for xs :: "'x list"
    using that by (auto simp: list_eq_iff_nth_eq nth_Cons' less_Suc_eq numeral_2_eq_2)
  have pre: "\<forall>p \<in> set ?st. add (fst p) < length (coeff_m ?qc)"
    by (simp add: a)
  obtain qc' where qc': "set_state ?st ?qc = Some qc'" "length (coeff_m qc') = 2"
    "\<forall>pre b a post. ?st = pre @ (b, a) # post \<and> (\<forall>p \<in> set post. add (fst p) \<noteq> add b)
            \<longrightarrow> coeff_m qc' ! add b = a"
    "\<forall>i < 2. (\<forall>p \<in> set ?st. add (fst p) \<noteq> i) \<longrightarrow> coeff_m qc' ! i = 0"
    using set_state_last_write_wins [OF pre] by auto
  have "?st = [(Basis 1, 2)] @ (Basis 1, 3) # [] \<and> (\<forall>p \<in> set []. add (fst p) \<noteq> add (Basis 1))"
    by simp
  with qc'(3) have "coeff_m qc' ! add (Basis 1) = 3" by blast
  moreover have "coeff_m qc' ! 0 = 0"
    using qc'(4) by (simp add: a)
  ultimately show ?thesis
    using two [OF qc'(2)] qc'(1) by (simp add: a)
qed

section \<open>apply_gate\<close>

text \<open>
  C10. For a gate whose qubit count is not 1, \<open>apply_gate\<close> runs no gate routine: it
  returns the register with the scratch vector copied into \<open>coeff_m\<close> and the scratch
  vector zeroed, and so does it for every other gate whose qubit count is not 1: the
  result does not depend on the gate's matrix, target or control. With the scratch
  vector all zero before the call, \<open>coeff_m\<close> is the all-zero vector afterwards.
\<close>

theorem apply_gate_other_arity:
  assumes "nqubits qg \<noteq> 1" and "\<forall>i < length (new_coeff_m qc). new_coeff_m qc ! i = 0"
  shows "apply_gate qg qc =
           Some (qc\<lparr>coeff_m := new_coeff_m qc,
                    new_coeff_m := replicate (length (new_coeff_m qc)) 0\<rparr>)
         \<and> (\<forall>qc'. apply_gate qg qc = Some qc' \<longrightarrow>
               coeff_m qc' = replicate (length (new_coeff_m qc)) 0)
         \<and> (\<forall>qg'. nqubits qg' \<noteq> 1 \<longrightarrow> apply_gate qg' qc = apply_gate qg qc)"
proof -
  have z: "new_coeff_m qc = replicate (length (new_coeff_m qc)) 0"
    using assms(2) by (simp add: list_eq_iff_nth_eq)
  have other: "apply_gate g qc =
      Some (qc\<lparr>coeff_m := new_coeff_m qc,
               new_coeff_m := replicate (length (new_coeff_m qc)) 0\<rparr>)"
    if "nqubits g \<noteq> 1" for g :: "'a QuantumGate"
    using that by (simp add: apply_gate_def map_replicate_const)
  have "coeff_m (qc\<lparr>coeff_m := new_coeff_m qc,
               new_coeff_m := replicate (length (new_coeff_m qc)) 0\<rparr>)
      = replicate (length (new_coeff_m qc)) 0"
    using z by simp
  then show ?thesis
    using other [OF assms(1)] other by simp
qed

theorem apply_gate_other_arity_witness:
  "nqubits \<lparr>nqubits = 2, target = 0, control = 1, gate = (\<lambda>i j. if i = j then 1 else 0)\<rparr> \<noteq> (1::int)
   \<and> apply_gate \<lparr>nqubits = 2, target = 0, control = 1, gate = (\<lambda>i j. if i = j then 1 else 0)\<rparr>
        \<lparr>nqubit_m = 2, nbasis_m = 4, basis_m = [Basis 0, Basis 1, Basis 2, Basis 3],
         coeff_m = [1, 0, 0, 0 :: complex], new_coeff_m = [0, 0, 0, 0]\<rparr>
      = Some \<lparr>nqubit_m = 2, nbasis_m = 4, basis_m = [Basis 0, Basis 1, Basis 2, Basis 3],
         coeff_m = [0, 0, 0, 0], new_coeff_m = [0, 0, 0, 0]\<rparr>"
proof -
  let ?qg = "\<lparr>nqubits = 2, target = 0, control = 1,
              gate = (\<lambda>i j. if i = j then 1 else (0::complex))\<rparr>"
  let ?qc = "\<lparr>nqubit_m = 2, nbasis_m = 4, basis_m = [Basis 0, Basis 1, Basis 2, Basis 3],
         coeff_m = [1, 0, 0, 0 :: complex], new_coeff_m = [0, 0, 0, 0]\<rparr>"
  have h1: "nqubits ?qg \<noteq> 1" by simp
  have h2: "\<forall>i < length (new_coeff_m ?qc). new_coeff_m ?qc ! i = 0"
    by (simp add: nth_Cons')
  have r: "replicate (length (new_coeff_m ?qc)) (0::complex) = [0, 0, 0, 0]"
    by (simp add: numeral_eq_Suc)
  have "apply_gate ?qg ?qc
      = Some (?qc\<lparr>coeff_m := new_coeff_m ?qc,
                    new_coeff_m := replicate (length (new_coeff_m ?qc)) 0\<rparr>)"
    using apply_gate_other_arity [OF h1 h2] by (rule conjunct1)
  then show ?thesis
    unfolding r using h1 by simp
qed

section \<open>QuantumComputer::str\<close>

lemma size_t_of_int_nat: "0 \<le> n \<Longrightarrow> n < 64 \<Longrightarrow> size_t_of_int n = nat n"
  by (simp add: size_t_of_int_def)

lemma str_loop:
  assumes "n \<le> length c" "n \<le> length bs" "N \<le> 2147483647"
  shows "for_each (\<lambda>i terms. do {
             a \<leftarrow> vec_get c i;
             if cabs a \<ge> thr then do {
               b \<leftarrow> vec_get bs i;
               s \<leftarrow> Basis_str N b;
               Some (terms @ [fmt a s])
             } else Some terms
           }) [0..<n] acc
         = Some (acc @ map (\<lambda>i. fmt (c ! i) (ket N (bs ! i)))
                          (filter (\<lambda>i. thr \<le> cabs (c ! i)) [0..<n]))"
  using assms
proof (induction n)
  case 0
  then show ?case by simp
next
  case (Suc n)
  then show ?case
    by (simp add: for_each_upt_Suc vec_get_def Basis_str_ket del: upt_Suc) simp
qed

text \<open>
  C9. On a register that satisfies the invariant, \<open>QuantumComputer_str\<close> returns the
  rendered terms of the list \<open>idx\<close> of basis indices, where \<open>idx\<close> holds exactly the
  indices below \<open>nbasis_m\<close> whose amplitude has a magnitude of at least the threshold,
  in strictly ascending order (so each once). The function returns the list only: it
  is a const member and has no state to return.
\<close>

theorem QuantumComputer_str_terms:
  assumes "wf_qc qc"
  shows "\<exists>idx. QuantumComputer_str cabs fmt thr qc
            = Some (map (\<lambda>i. fmt (coeff_m qc ! i) (ket (nat (nqubit_m qc)) (Basis_of i))) idx)
          \<and> idx = filter (\<lambda>i. thr \<le> cabs (coeff_m qc ! i)) [0..<nbasis_m qc]
          \<and> sorted_wrt (<) idx
          \<and> set idx = {i. i < nbasis_m qc \<and> thr \<le> cabs (coeff_m qc ! i)}"
proof -
  let ?idx = "filter (\<lambda>i. thr \<le> cabs (coeff_m qc ! i)) [0..<nbasis_m qc]"
  have N: "size_t_of_int (nqubit_m qc) = nat (nqubit_m qc)" "nat (nqubit_m qc) \<le> 2147483647"
    using assms by (auto simp: wf_qc_def size_t_of_int_nat)
  have len: "nbasis_m qc \<le> length (coeff_m qc)" "nbasis_m qc \<le> length (basis_m qc)"
    using assms by (simp_all add: wf_qc_def)
  have "QuantumComputer_str cabs fmt thr qc
      = Some (map (\<lambda>i. fmt (coeff_m qc ! i) (ket (nat (nqubit_m qc)) (basis_m qc ! i))) ?idx)"
    unfolding QuantumComputer_str_def N(1)
    using str_loop [OF len N(2), where cabs = cabs and thr = thr and fmt = fmt and acc = "[]"]
    by simp
  moreover have "map (\<lambda>i. fmt (coeff_m qc ! i) (ket (nat (nqubit_m qc)) (basis_m qc ! i))) ?idx
      = map (\<lambda>i. fmt (coeff_m qc ! i) (ket (nat (nqubit_m qc)) (Basis_of i))) ?idx"
    using assms by (auto simp: wf_qc_def)
  moreover have "sorted_wrt (<) ?idx"
    by (rule sorted_wrt_filter) (simp add: sorted_wrt_upt)
  moreover have "set ?idx = {i. i < nbasis_m qc \<and> thr \<le> cabs (coeff_m qc ! i)}"
    by auto
  ultimately show ?thesis by simp
qed

theorem QuantumComputer_str_terms_witness:
  "wf_qc \<lparr>nqubit_m = 1, nbasis_m = 2, basis_m = [Basis 0, Basis 1],
          coeff_m = [0, 1 :: complex], new_coeff_m = [0, 0]\<rparr> \<and>
   QuantumComputer_str cmod (\<lambda>c s. s) (1 / 2)
     \<lparr>nqubit_m = 1, nbasis_m = 2, basis_m = [Basis 0, Basis 1],
      coeff_m = [0, 1 :: complex], new_coeff_m = [0, 0]\<rparr> = Some [''|1>'']"
proof -
  let ?qc = "\<lparr>nqubit_m = 1, nbasis_m = 2, basis_m = [Basis 0, Basis 1],
          coeff_m = [0, 1 :: complex], new_coeff_m = [0, 0]\<rparr>"
  have up: "[0..<2] = [0, Suc 0]" by (simp add: upt_rec)
  have wf: "wf_qc ?qc"
    by (simp add: wf_qc_def Basis_of_def up)
  have "ket 1 (Basis_of 1) = ''|1>''"
    by (simp add: ket_def Basis_of_def get_bit_def)
  then show ?thesis
    using wf QuantumComputer_str_terms
      [OF wf, where cabs = cmod and fmt = "\<lambda>c s. s" and thr = "1 / 2"]
    by (simp add: up)
qed

section \<open>Accumulation into the scratch vector\<close>

lemma length_accumulated [simp]: "length (accumulated nc L) = length nc"
  by (simp add: accumulated_def)

lemma nth_accumulated [simp]:
  "I < length nc \<Longrightarrow> accumulated nc L ! I = foldl (+) (nc ! I) (L I)"
  by (simp add: accumulated_def)

lemma accumulated_Nil [simp]: "accumulated nc (\<lambda>I. []) = nc"
  by (simp add: accumulated_def map_nth)

lemma accumulated_twice:
  "accumulated (accumulated nc L1) L2 = accumulated nc (\<lambda>I. L1 I @ L2 I)"
  by (simp add: list_eq_iff_nth_eq)

lemma accumulated_update:
  "i < length nc \<Longrightarrow>
   accumulated (nc[i := nc ! i + v]) L = accumulated nc (\<lambda>I. if i = I then v # L I else L I)"
  by (simp add: list_eq_iff_nth_eq nth_list_update)

lemma accumulate_Some:
  "I < length (new_coeff_m q) \<Longrightarrow> J < length (coeff_m q) \<Longrightarrow>
   accumulate I op_i_j J q
     = Some (q\<lparr>new_coeff_m := (new_coeff_m q)[I := new_coeff_m q ! I + op_i_j * coeff_m q ! J]\<rparr>)"
  by (simp add: accumulate_def vec_get_def vec_set_def)

lemma loop_accumulate:
  assumes "\<forall>x \<in> set xs. cond x \<longrightarrow> idx x < length (new_coeff_m q) \<and> src x < length (coeff_m q)"
  shows "for_each (\<lambda>x q. if cond x then accumulate (idx x) (opv x) (src x) q else Some q) xs q
     = Some (q\<lparr>new_coeff_m := accumulated (new_coeff_m q)
          (\<lambda>I. map (\<lambda>x. opv x * coeff_m q ! src x) (filter (\<lambda>x. cond x \<and> idx x = I) xs))\<rparr>)"
  using assms
proof (induction xs arbitrary: q)
  case Nil
  then show ?case by simp
next
  case (Cons x xs)
  show ?case
  proof (cases "cond x")
    case True
    let ?q1 = "q\<lparr>new_coeff_m := (new_coeff_m q)
      [idx x := new_coeff_m q ! idx x + opv x * coeff_m q ! src x]\<rparr>"
    have r: "idx x < length (new_coeff_m q)" "src x < length (coeff_m q)"
      using Cons.prems True by auto
    have pre: "\<forall>y \<in> set xs. cond y \<longrightarrow>
        idx y < length (new_coeff_m ?q1) \<and> src y < length (coeff_m ?q1)"
      using Cons.prems by simp
    let ?F = "\<lambda>x q. if cond x then accumulate (idx x) (opv x) (src x) q else Some q"
    let ?f = "\<lambda>x. opv x * coeff_m q ! src x"
    have L: "(\<lambda>I. map ?f (filter (\<lambda>y. cond y \<and> idx y = I) (x # xs)))
        = (\<lambda>I. if idx x = I then ?f x # map ?f (filter (\<lambda>y. cond y \<and> idx y = I) xs)
               else map ?f (filter (\<lambda>y. cond y \<and> idx y = I) xs))"
      using True by (auto simp: fun_eq_iff)
    have "for_each ?F (x # xs) q = for_each ?F xs ?q1"
      using True r by (simp add: accumulate_Some)
    also have "\<dots> = Some (?q1\<lparr>new_coeff_m := accumulated (new_coeff_m ?q1)
          (\<lambda>I. map (\<lambda>x. opv x * coeff_m ?q1 ! src x) (filter (\<lambda>x. cond x \<and> idx x = I) xs))\<rparr>)"
      by (rule Cons.IH [OF pre])
    also have "\<dots> = Some (q\<lparr>new_coeff_m := accumulated (new_coeff_m q)
          (\<lambda>I. map ?f (filter (\<lambda>y. cond y \<and> idx y = I) (x # xs)))\<rparr>)"
      unfolding L using r(1) by (simp add: accumulated_update)
    finally show ?thesis .
  next
    case False
    then show ?thesis using Cons by simp
  qed
qed

lemma for_each_accumulated:
  assumes "\<And>x q. x \<in> set xs \<Longrightarrow> coeff_m q = c \<Longrightarrow> length (new_coeff_m q) = n \<Longrightarrow>
      f x q = Some (q\<lparr>new_coeff_m := accumulated (new_coeff_m q) (L x)\<rparr>)"
    and "coeff_m q = c" "length (new_coeff_m q) = n"
  shows "for_each f xs q
     = Some (q\<lparr>new_coeff_m := accumulated (new_coeff_m q) (\<lambda>I. concat (map (\<lambda>x. L x I) xs))\<rparr>)"
  using assms
proof (induction xs arbitrary: q)
  case Nil
  then show ?case by simp
next
  case (Cons x xs)
  let ?q1 = "q\<lparr>new_coeff_m := accumulated (new_coeff_m q) (L x)\<rparr>"
  have 1: "f x q = Some ?q1"
    using Cons.prems by simp
  have 2: "for_each f xs ?q1 = Some (?q1\<lparr>new_coeff_m :=
      accumulated (new_coeff_m ?q1) (\<lambda>I. concat (map (\<lambda>x. L x I) xs))\<rparr>)"
    using Cons.prems by (intro Cons.IH) simp_all
  show ?case
    by (simp add: 1 2 accumulated_twice)
qed

section \<open>Bits of basis indices\<close>

lemma nat_less_pow2_iff: "x < 2 ^ N \<longleftrightarrow> (\<forall>k. bit x k \<longrightarrow> k < N)" for x :: nat
proof -
  have "x < 2 ^ N \<longleftrightarrow> take_bit N x = x"
    by (simp add: take_bit_nat_eq_self_iff)
  also have "\<dots> \<longleftrightarrow> (\<forall>k. bit x k \<longrightarrow> k < N)"
  proof
    assume eq: "take_bit N x = x"
    show "\<forall>k. bit x k \<longrightarrow> k < N"
    proof (intro allI impI)
      fix k assume "bit x k"
      then have "bit (take_bit N x) k" by (simp only: eq)
      then show "k < N" by (simp add: bit_take_bit_iff)
    qed
  next
    assume "\<forall>k. bit x k \<longrightarrow> k < N"
    then show "take_bit N x = x"
      by (intro bit_eqI) (auto simp: bit_take_bit_iff)
  qed
  finally show ?thesis .
qed

lemma bit_put_bit: "bit (put_bit t v J) k \<longleftrightarrow> (if k = t then v else bit J k)"
  by (auto simp: put_bit_def bit_set_bit_iff bit_unset_bit_iff)

lemma put_bit_less: "J < 2 ^ N \<Longrightarrow> t < N \<Longrightarrow> put_bit t v J < 2 ^ N"
  by (auto simp: nat_less_pow2_iff bit_put_bit split: if_splits)

lemma put_bit_same: "put_bit t (bit I t) I = I"
  by (rule bit_eqI) (simp add: bit_put_bit)

lemma put_bit_put_bit: "put_bit t v (put_bit t w I) = put_bit t v I"
  by (rule bit_eqI) (simp add: bit_put_bit)

lemma bit_put_bit_self: "bit (put_bit t v J) t = v"
  by (simp add: bit_put_bit)

lemma add_Basis_of: "J < 2 ^ 64 \<Longrightarrow> add (Basis_of J) = J"
  by (simp add: add_def Basis_of_def unat_of_nat)

lemma get_bit_Basis_of: "t < 64 \<Longrightarrow> get_bit (Basis_of J) t = bit J t"
  by (simp add: get_bit_def Basis_of_def bit_of_nat_iff)

lemma set_bit_basis_Basis_of: "set_bit_basis t v (Basis_of J) = Basis_of (put_bit t v J)"
  by (simp add: set_bit_basis_def Basis_of_def put_bit_def of_nat_set_bit_eq of_nat_unset_bit_eq)

lemma filter_upt_unique:
  assumes "a < n" "\<And>x. x < n \<Longrightarrow> P x \<longleftrightarrow> x = a"
  shows "filter P [0..<n] = [a]"
proof -
  have "filter P [0..<n] = filter (\<lambda>x. x = a) [0..<n]"
    using assms(2) by (intro filter_cong) auto
  also have "\<dots> = [a]"
    using assms(1)
  proof (induction n)
    case 0
    then show ?case by simp
  next
    case (Suc n)
    show ?case
    proof (cases "a = n")
      case True
      have "filter (\<lambda>x. x = a) [0..<n] = []"
        using True by (auto simp: filter_empty_conv)
      then show ?thesis using True by simp
    next
      case False
      with Suc show ?thesis by simp
    qed
  qed
  finally show ?thesis .
qed

lemma filter_upt_none: "(\<And>x. x < n \<Longrightarrow> \<not> P x) \<Longrightarrow> filter P [0..<n] = []"
  by (auto simp: filter_empty_conv)

text \<open>The basis states that one pass of the dense scan sends to a given index.\<close>

lemma dense_sources:
  assumes "I < 2 ^ N" "t < N"
  shows "filter (\<lambda>J. bit J t = jb \<and> put_bit t ib J = I) [0..<2 ^ N]
     = (if bit I t = ib then [put_bit t jb I] else [])"
proof (cases "bit I t = ib")
  case True
  have "(bit J t = jb \<and> put_bit t ib J = I) \<longleftrightarrow> J = put_bit t jb I" for J
  proof
    assume a: "bit J t = jb \<and> put_bit t ib J = I"
    then have a1: "bit J t = jb" and a2: "put_bit t ib J = I" by simp_all
    have "J = put_bit t (bit J t) J" by (simp only: put_bit_same)
    also have "\<dots> = put_bit t jb J" by (simp only: a1)
    also have "\<dots> = put_bit t jb (put_bit t ib J)" by (simp only: put_bit_put_bit)
    also have "\<dots> = put_bit t jb I" by (simp only: a2)
    finally show "J = put_bit t jb I" .
  next
    assume J: "J = put_bit t jb I"
    have "bit J t = jb" unfolding J by (rule bit_put_bit_self)
    moreover have "put_bit t ib J = put_bit t (bit I t) I"
      unfolding J put_bit_put_bit True ..
    ultimately show "bit J t = jb \<and> put_bit t ib J = I"
      by (simp only: put_bit_same)
  qed
  then have "filter (\<lambda>J. bit J t = jb \<and> put_bit t ib J = I) [0..<2 ^ N] = [put_bit t jb I]"
    by (intro filter_upt_unique put_bit_less assms)
  with True show ?thesis by simp
next
  case False
  have "\<not> (bit J t = jb \<and> put_bit t ib J = I)" for J
  proof
    assume "bit J t = jb \<and> put_bit t ib J = I"
    then have "bit I t = bit (put_bit t ib J) t" by simp
    with False show False by (simp only: bit_put_bit_self)
  qed
  then have "filter (\<lambda>J. bit J t = jb \<and> put_bit t ib J = I) [0..<2 ^ N] = []"
    by (intro filter_upt_none)
  with False show ?thesis by simp
qed

section \<open>The dense scan for one qubit\<close>

lemma basis_loop:
  assumes len: "length (new_coeff_m q) = n" "length (coeff_m q) = n" "n \<le> 2 ^ 64"
    and rng: "\<And>J. J < n \<Longrightarrow> cond (Basis_of J) \<Longrightarrow> add (idxb (Basis_of J)) < n"
  shows "for_each (\<lambda>b q. if cond b then accumulate (add (idxb b)) op_i_j (add b) q else Some q)
           (map Basis_of [0..<n]) q
     = Some (q\<lparr>new_coeff_m := accumulated (new_coeff_m q)
          (\<lambda>I. map (\<lambda>J. op_i_j * coeff_m q ! J)
                 (filter (\<lambda>J. cond (Basis_of J) \<and> add (idxb (Basis_of J)) = I) [0..<n]))\<rparr>)"
proof -
  have J64: "J < 2 ^ 64" if "J < n" for J
    using that len(3) by simp
  have pre: "\<forall>b \<in> set (map Basis_of [0..<n]). cond b \<longrightarrow>
      add (idxb b) < length (new_coeff_m q) \<and> add b < length (coeff_m q)"
    using rng len J64 by (auto simp: add_Basis_of)
  have "map (\<lambda>b. op_i_j * coeff_m q ! add b)
          (filter (\<lambda>b. cond b \<and> add (idxb b) = I) (map Basis_of [0..<n]))
      = map (\<lambda>J. op_i_j * coeff_m q ! J)
          (filter (\<lambda>J. cond (Basis_of J) \<and> add (idxb (Basis_of J)) = I) [0..<n])" for I
    using J64 by (simp add: filter_map comp_def add_Basis_of)
  then show ?thesis
    using loop_accumulate [OF pre, where opv = "\<lambda>_. op_i_j"] by simp
qed

text \<open>One pass of the dense scan: the matrix entry \<open>(i, j)\<close>.\<close>

lemma dense_pass:
  assumes len: "length (new_coeff_m q) = 2 ^ N" "length (coeff_m q) = 2 ^ N" "N \<le> 64"
    and t: "t < N"
  shows "for_each (\<lambda>basis_J q.
             if of_bool (get_bit basis_J t) = j then
               let basis_I = set_bit_basis t (i \<noteq> 0) basis_J
               in accumulate (add basis_I) op_i_j (add basis_J) q
             else Some q)
           (map Basis_of [0..<2 ^ N]) q
     = Some (q\<lparr>new_coeff_m := accumulated (new_coeff_m q)
          (\<lambda>I. map (\<lambda>J. op_i_j * coeff_m q ! J)
                 (filter (\<lambda>J. of_bool (bit J t) = j \<and> put_bit t (i \<noteq> 0) J = I) [0..<2 ^ N]))\<rparr>)"
proof -
  have t64: "t < 64" using t len(3) by simp
  have n64: "(2::nat) ^ N \<le> 2 ^ 64" using len(3) by (intro power_increasing) simp_all
  have idx: "add (set_bit_basis t v (Basis_of J)) = put_bit t v J" if "J < 2 ^ N" for J v
  proof -
    have "put_bit t v J < 2 ^ N" using that t by (rule put_bit_less)
    then have "put_bit t v J < 2 ^ 64" using n64 by simp
    then show ?thesis by (simp add: set_bit_basis_Basis_of add_Basis_of)
  qed
  have rng: "add (set_bit_basis t (i \<noteq> 0) (Basis_of J)) < 2 ^ N"
    if "J < 2 ^ N" for J
    using that t by (simp add: idx put_bit_less)
  have filt: "filter (\<lambda>J. of_bool (get_bit (Basis_of J) t) = j
                 \<and> add (set_bit_basis t (i \<noteq> 0) (Basis_of J)) = I) [0..<2 ^ N]
      = filter (\<lambda>J. of_bool (bit J t) = j \<and> put_bit t (i \<noteq> 0) J = I) [0..<2 ^ N]" for I
    by (rule filter_cong) (simp_all add: idx get_bit_Basis_of [OF t64])
  have "for_each (\<lambda>b q. if of_bool (get_bit b t) = j
              then accumulate (add (set_bit_basis t (i \<noteq> 0) b)) op_i_j (add b) q else Some q)
           (map Basis_of [0..<2 ^ N]) q
     = Some (q\<lparr>new_coeff_m := accumulated (new_coeff_m q)
          (\<lambda>I. map (\<lambda>J. op_i_j * coeff_m q ! J)
                 (filter (\<lambda>J. of_bool (get_bit (Basis_of J) t) = j
                             \<and> add (set_bit_basis t (i \<noteq> 0) (Basis_of J)) = I) [0..<2 ^ N]))\<rparr>)"
    by (rule basis_loop [OF len(1,2) n64]) (rule rng)
  then show ?thesis
    unfolding Let_def filt .
qed

lemma wf_qcD:
  assumes "wf_qc qc"
  shows "length (new_coeff_m qc) = 2 ^ nat (nqubit_m qc)"
    "length (coeff_m qc) = 2 ^ nat (nqubit_m qc)"
    "nat (nqubit_m qc) \<le> 64"
    "basis_m qc = map Basis_of [0..<2 ^ nat (nqubit_m qc)]"
    "nbasis_m qc = 2 ^ nat (nqubit_m qc)"
  using assms by (auto simp: wf_qc_def)

lemma apply_1qubit_gate_accumulated:
  assumes wf: "wf_qc qc" and t: "target qg < nat (nqubit_m qc)"
  shows "apply_1qubit_gate qg qc
     = Some (qc\<lparr>new_coeff_m := accumulated (new_coeff_m qc)
         (\<lambda>I. concat (map (\<lambda>i. concat (map (\<lambda>j.
              map (\<lambda>J. gate qg i j * coeff_m qc ! J)
                (filter (\<lambda>J. of_bool (bit J (target qg)) = j \<and> put_bit (target qg) (i \<noteq> 0) J = I)
                   [0..<2 ^ nat (nqubit_m qc)]))
              [0..<2])) [0..<2]))\<rparr>)"
  unfolding apply_1qubit_gate_def wf_qcD(4) [OF wf] Let_def
proof (rule for_each_accumulated [where c = "coeff_m qc" and n = "2 ^ nat (nqubit_m qc)"])
  fix i and q :: "'a QuantumComputer"
  assume q: "coeff_m q = coeff_m qc" "length (new_coeff_m q) = 2 ^ nat (nqubit_m qc)"
  show "for_each (\<lambda>j. for_each (\<lambda>basis_J q.
           if of_bool (get_bit basis_J (target qg)) = j
           then accumulate (add (set_bit_basis (target qg) (i \<noteq> 0) basis_J)) (gate qg i j)
                  (add basis_J) q
           else Some q) (map Basis_of [0..<2 ^ nat (nqubit_m qc)])) [0..<2] q
      = Some (q\<lparr>new_coeff_m := accumulated (new_coeff_m q)
          (\<lambda>I. concat (map (\<lambda>j. map (\<lambda>J. gate qg i j * coeff_m qc ! J)
                (filter (\<lambda>J. of_bool (bit J (target qg)) = j \<and> put_bit (target qg) (i \<noteq> 0) J = I)
                   [0..<2 ^ nat (nqubit_m qc)])) [0..<2]))\<rparr>)"
  proof (rule for_each_accumulated [where c = "coeff_m qc" and n = "2 ^ nat (nqubit_m qc)"])
    fix j and q' :: "'a QuantumComputer"
    assume q': "coeff_m q' = coeff_m qc" "length (new_coeff_m q') = 2 ^ nat (nqubit_m qc)"
    have len: "length (coeff_m q') = 2 ^ nat (nqubit_m qc)"
      using q'(1) wf_qcD(2) [OF wf] by simp
    show "for_each (\<lambda>basis_J q.
           if of_bool (get_bit basis_J (target qg)) = j
           then accumulate (add (set_bit_basis (target qg) (i \<noteq> 0) basis_J)) (gate qg i j)
                  (add basis_J) q
           else Some q) (map Basis_of [0..<2 ^ nat (nqubit_m qc)]) q'
      = Some (q'\<lparr>new_coeff_m := accumulated (new_coeff_m q')
          (\<lambda>I. map (\<lambda>J. gate qg i j * coeff_m qc ! J)
                (filter (\<lambda>J. of_bool (bit J (target qg)) = j \<and> put_bit (target qg) (i \<noteq> 0) J = I)
                   [0..<2 ^ nat (nqubit_m qc)]))\<rparr>)"
      using dense_pass [OF q'(2) len wf_qcD(3) [OF wf] t, of j i "gate qg i j"]
      unfolding Let_def q'(1) .
  qed (rule q)+
qed (simp_all add: wf_qcD [OF wf])

lemma upt_2: "[0..<2] = [0, Suc 0]"
  by (simp add: upt_rec)

lemma dense_sources_nat:
  fixes j :: nat
  assumes "I < 2 ^ N" "t < N" "j < 2"
  shows "filter (\<lambda>J. of_bool (bit J t) = j \<and> put_bit t ib J = I) [0..<2 ^ N]
     = (if bit I t = ib then [put_bit t (j \<noteq> 0) I] else [])"
proof -
  have eq: "(of_bool (bit J t) = j) = (bit J t = (j \<noteq> 0))" for J
    using assms(3) by (cases "bit J t") auto
  show ?thesis
    unfolding eq by (rule dense_sources [OF assms(1,2)])
qed

lemma dense_contribs:
  assumes "I < 2 ^ N" "t < N"
  shows "concat (map (\<lambda>i. concat (map (\<lambda>j.
              map (\<lambda>J. g i j * c ! J)
                (filter (\<lambda>J. of_bool (bit J t) = j \<and> put_bit t (i \<noteq> 0) J = I) [0..<2 ^ N]))
              [0..<2])) [0..<2])
     = [g (of_bool (bit I t)) 0 * c ! unset_bit t I, g (of_bool (bit I t)) 1 * c ! set_bit t I]"
proof -
  have two: "(0::nat) < 2" "Suc 0 < 2" by simp_all
  have f0: "filter (\<lambda>J. of_bool (bit J t) = (0::nat) \<and> put_bit t ib J = I) [0..<2 ^ N]
     = (if bit I t = ib then [unset_bit t I] else [])" for ib
    unfolding dense_sources_nat [OF assms two(1), of ib] by (simp add: put_bit_def)
  have f1: "filter (\<lambda>J. of_bool (bit J t) = Suc 0 \<and> put_bit t ib J = I) [0..<2 ^ N]
     = (if bit I t = ib then [set_bit t I] else [])" for ib
    unfolding dense_sources_nat [OF assms two(2), of ib] by (simp add: put_bit_def)
  show ?thesis
    unfolding upt_2 list.map concat.simps f0 f1
    by (cases "bit I t") simp_all
qed

text \<open>
  C1. On a register that satisfies the invariant and for a target qubit \<open>t\<close> below the
  qubit count, the dense scan returns, leaves every member but the scratch vector as it
  was, and adds to every entry \<open>I\<close> of the scratch vector first
  \<open>op[b][0] * coeff[J0]\<close> and then \<open>op[b][1] * coeff[J1]\<close>, where \<open>b\<close> is bit \<open>t\<close> of \<open>I\<close>
  and \<open>J0\<close>, \<open>J1\<close> are \<open>I\<close> with bit \<open>t\<close> forced to 0 and to 1. With the scratch vector all
  zero before the call, as the constructor and \<open>apply_gate\<close> leave it, the entry is
  \<open>op[b][0] * coeff[J0] + op[b][1] * coeff[J1]\<close>. No law of the amplitude type is used
  but \<open>0 + x = x\<close>, and that only for the second statement.
\<close>

theorem apply_1qubit_gate_action:
  fixes qc :: "('a::{monoid_add,times}) QuantumComputer"
  assumes wf: "wf_qc qc" and t: "target qg < nat (nqubit_m qc)"
  shows "\<exists>qc'. apply_1qubit_gate qg qc = Some qc'
     \<and> coeff_m qc' = coeff_m qc \<and> basis_m qc' = basis_m qc
     \<and> nqubit_m qc' = nqubit_m qc \<and> nbasis_m qc' = nbasis_m qc
     \<and> length (new_coeff_m qc') = nbasis_m qc
     \<and> (\<forall>I < nbasis_m qc.
          new_coeff_m qc' ! I
            = new_coeff_m qc ! I
              + gate qg (of_bool (bit I (target qg))) 0 * coeff_m qc ! unset_bit (target qg) I
              + gate qg (of_bool (bit I (target qg))) 1 * coeff_m qc ! set_bit (target qg) I)
     \<and> ((\<forall>I < nbasis_m qc. new_coeff_m qc ! I = 0) \<longrightarrow>
         (\<forall>I < nbasis_m qc.
            new_coeff_m qc' ! I
              = gate qg (of_bool (bit I (target qg))) 0 * coeff_m qc ! unset_bit (target qg) I
              + gate qg (of_bool (bit I (target qg))) 1 * coeff_m qc ! set_bit (target qg) I))"
proof -
  let ?N = "nat (nqubit_m qc)"
  let ?t = "target qg"
  let ?L = "\<lambda>I. concat (map (\<lambda>i. concat (map (\<lambda>j.
              map (\<lambda>J. gate qg i j * coeff_m qc ! J)
                (filter (\<lambda>J. of_bool (bit J ?t) = j \<and> put_bit ?t (i \<noteq> 0) J = I) [0..<2 ^ ?N]))
              [0..<2])) [0..<2])"
  define qc' where "qc' = qc\<lparr>new_coeff_m := accumulated (new_coeff_m qc) ?L\<rparr>"
  have res: "apply_1qubit_gate qg qc = Some qc'"
    unfolding qc'_def by (rule apply_1qubit_gate_accumulated [OF wf t])
  have nb: "nbasis_m qc = 2 ^ ?N" "length (new_coeff_m qc) = 2 ^ ?N"
    using wf_qcD [OF wf] by simp_all
  have sel: "coeff_m qc' = coeff_m qc" "basis_m qc' = basis_m qc"
    "nqubit_m qc' = nqubit_m qc" "nbasis_m qc' = nbasis_m qc"
    "length (new_coeff_m qc') = nbasis_m qc"
    by (simp_all add: qc'_def nb)
  have val: "new_coeff_m qc' ! I
      = new_coeff_m qc ! I
        + gate qg (of_bool (bit I ?t)) 0 * coeff_m qc ! unset_bit ?t I
        + gate qg (of_bool (bit I ?t)) 1 * coeff_m qc ! set_bit ?t I"
    if "I < nbasis_m qc" for I
  proof -
    have I: "I < 2 ^ ?N" using that nb by simp
    then have "new_coeff_m qc' ! I = foldl (+) (new_coeff_m qc ! I) (?L I)"
      by (simp add: qc'_def nb)
    also have "?L I = [gate qg (of_bool (bit I ?t)) 0 * coeff_m qc ! unset_bit ?t I,
        gate qg (of_bool (bit I ?t)) 1 * coeff_m qc ! set_bit ?t I]"
      by (rule dense_contribs [OF I t])
    finally show ?thesis by simp
  qed
  have zero: "new_coeff_m qc' ! I
      = gate qg (of_bool (bit I ?t)) 0 * coeff_m qc ! unset_bit ?t I
        + gate qg (of_bool (bit I ?t)) 1 * coeff_m qc ! set_bit ?t I"
    if "\<forall>I < nbasis_m qc. new_coeff_m qc ! I = 0" "I < nbasis_m qc" for I
    using val [OF that(2)] that by simp
  show ?thesis
    using res sel val zero by blast
qed

lemma list2: "xs = [xs ! 0, xs ! 1]" if "length xs = 2" for xs :: "'x list"
  using that by (auto simp: list_eq_iff_nth_eq nth_Cons' less_Suc_eq numeral_2_eq_2)

theorem apply_1qubit_gate_action_witness:
  "wf_qc \<lparr>nqubit_m = 1, nbasis_m = 2, basis_m = [Basis 0, Basis 1],
          coeff_m = [11, 13 :: complex], new_coeff_m = [0, 0]\<rparr> \<and>
   target \<lparr>nqubits = 1, target = 0, control = 0,
           gate = (\<lambda>i j. [[2, 3], [5, 7 :: complex]] ! i ! j)\<rparr> < nat 1 \<and>
   map_option new_coeff_m
     (apply_1qubit_gate
        \<lparr>nqubits = 1, target = 0, control = 0,
         gate = (\<lambda>i j. [[2, 3], [5, 7 :: complex]] ! i ! j)\<rparr>
        \<lparr>nqubit_m = 1, nbasis_m = 2, basis_m = [Basis 0, Basis 1],
         coeff_m = [11, 13 :: complex], new_coeff_m = [0, 0]\<rparr>) = Some [61, 146]"
proof -
  let ?qc = "\<lparr>nqubit_m = 1, nbasis_m = 2, basis_m = [Basis 0, Basis 1],
          coeff_m = [11, 13 :: complex], new_coeff_m = [0, 0]\<rparr>"
  let ?qg = "\<lparr>nqubits = 1, target = 0, control = 0,
         gate = (\<lambda>i j. [[2, 3], [5, 7 :: complex]] ! i ! j)\<rparr>"
  have wf: "wf_qc ?qc"
    by (simp add: wf_qc_def Basis_of_def upt_2)
  have t: "target ?qg < nat (nqubit_m ?qc)" by simp
  have z: "\<forall>I < nbasis_m ?qc. new_coeff_m ?qc ! I = 0"
    by (simp add: nth_Cons' )
  have bits: "unset_bit 0 (0::nat) = 0" "set_bit 0 (0::nat) = Suc 0"
    "unset_bit 0 (Suc 0) = 0" "set_bit 0 (Suc 0) = Suc 0" "bit (Suc 0) 0" "\<not> bit (0::nat) 0"
    by code_simp+
  obtain qc' where qc': "apply_1qubit_gate ?qg ?qc = Some qc'"
    "length (new_coeff_m qc') = 2"
    "\<forall>I < 2. new_coeff_m qc' ! I
       = gate ?qg (of_bool (bit I (target ?qg))) 0 * coeff_m ?qc ! unset_bit (target ?qg) I
         + gate ?qg (of_bool (bit I (target ?qg))) 1 * coeff_m ?qc ! set_bit (target ?qg) I"
    using apply_1qubit_gate_action [OF wf t] z by auto
  have "new_coeff_m qc' ! 0 = 61" "new_coeff_m qc' ! 1 = 146"
    using qc'(3) by (simp_all add: bits)
  then show ?thesis
    using wf list2 [OF qc'(2)] qc'(1) by simp
qed

section \<open>The scan for two qubits\<close>

lemma map_filter_concat:
  "map f (filter P xs) = concat (map (\<lambda>x. if P x then [f x] else []) xs)"
  by (induction xs) auto

lemma comp3: "[f i j J. i \<leftarrow> is, j \<leftarrow> js, J \<leftarrow> Js, P i j J]
   = concat (map (\<lambda>i. concat (map (\<lambda>j. map (f i j) (filter (P i j) Js)) js)) is)"
  by (simp add: map_filter_concat)

lemma vec_get_Some: "i < length v \<Longrightarrow> vec_get v i = Some (v ! i)"
  by (simp add: vec_get_def)

text \<open>One pass of the two-qubit scan: the matrix entry \<open>(i, j)\<close>.\<close>

lemma two_qubit_pass:
  assumes len: "length (new_coeff_m q) = 2 ^ N" "length (coeff_m q) = 2 ^ N" "N \<le> 64"
    and c: "c < N" and t: "t < N"
  shows "for_each (\<lambda>basis_J q.
             if of_bool (get_bit basis_J c) = j_c \<and> of_bool (get_bit basis_J t) = j_t then
               let basis_I = set_bit_basis c (i_c \<noteq> 0) basis_J;
                   basis_I = set_bit_basis t (i_t \<noteq> 0) basis_I
               in accumulate (add basis_I) op_i_j (add basis_J) q
             else Some q)
           (map Basis_of [0..<2 ^ N]) q
     = Some (q\<lparr>new_coeff_m := accumulated (new_coeff_m q)
          (\<lambda>I. map (\<lambda>J. op_i_j * coeff_m q ! J)
                 (filter (\<lambda>J. of_bool (bit J c) = j_c \<and> of_bool (bit J t) = j_t
                             \<and> put_bit t (i_t \<noteq> 0) (put_bit c (i_c \<noteq> 0) J) = I)
                    [0..<2 ^ N]))\<rparr>)"
proof -
  have c64: "c < 64" and t64: "t < 64" using c t len(3) by simp_all
  have n64: "(2::nat) ^ N \<le> 2 ^ 64" using len(3) by (intro power_increasing) simp_all
  have less: "put_bit t v (put_bit c w J) < 2 ^ N" if "J < 2 ^ N" for J v w
    using that c t by (intro put_bit_less)
  have idx: "add (set_bit_basis t v (set_bit_basis c w (Basis_of J)))
      = put_bit t v (put_bit c w J)" if "J < 2 ^ N" for J v w
  proof -
    have "put_bit t v (put_bit c w J) < 2 ^ 64"
      using less [OF that, of v w] n64 by (rule less_le_trans)
    then show ?thesis by (simp add: set_bit_basis_Basis_of add_Basis_of)
  qed
  have rng: "add (set_bit_basis t (i_t \<noteq> 0) (set_bit_basis c (i_c \<noteq> 0) (Basis_of J))) < 2 ^ N"
    if "J < 2 ^ N" for J
    using that by (simp add: idx less)
  have filt: "filter (\<lambda>J. (of_bool (get_bit (Basis_of J) c) = j_c
                    \<and> of_bool (get_bit (Basis_of J) t) = j_t)
                 \<and> add (set_bit_basis t (i_t \<noteq> 0) (set_bit_basis c (i_c \<noteq> 0) (Basis_of J))) = I)
               [0..<2 ^ N]
      = filter (\<lambda>J. of_bool (bit J c) = j_c \<and> of_bool (bit J t) = j_t
                  \<and> put_bit t (i_t \<noteq> 0) (put_bit c (i_c \<noteq> 0) J) = I) [0..<2 ^ N]" for I
    by (rule filter_cong) (simp_all add: idx get_bit_Basis_of [OF t64] get_bit_Basis_of [OF c64])
  have "for_each (\<lambda>b q. if of_bool (get_bit b c) = j_c \<and> of_bool (get_bit b t) = j_t
              then accumulate (add (set_bit_basis t (i_t \<noteq> 0) (set_bit_basis c (i_c \<noteq> 0) b)))
                     op_i_j (add b) q
              else Some q)
           (map Basis_of [0..<2 ^ N]) q
     = Some (q\<lparr>new_coeff_m := accumulated (new_coeff_m q)
          (\<lambda>I. map (\<lambda>J. op_i_j * coeff_m q ! J)
                 (filter (\<lambda>J. (of_bool (get_bit (Basis_of J) c) = j_c
                               \<and> of_bool (get_bit (Basis_of J) t) = j_t)
                    \<and> add (set_bit_basis t (i_t \<noteq> 0) (set_bit_basis c (i_c \<noteq> 0) (Basis_of J))) = I)
                  [0..<2 ^ N]))\<rparr>)"
    by (rule basis_loop [OF len(1,2) n64,
          where idxb = "\<lambda>b. set_bit_basis t (i_t \<noteq> 0) (set_bit_basis c (i_c \<noteq> 0) b)"])
       (rule rng)
  then show ?thesis
    unfolding Let_def filt .
qed

lemma apply_2qubit_gate_accumulated:
  assumes wf: "wf_qc qc" and c: "control qg < nat (nqubit_m qc)"
    and t: "target qg < nat (nqubit_m qc)" and tqb: "4 \<le> length tqb"
  shows "apply_2qubit_gate tqb qg qc
     = Some (qc\<lparr>new_coeff_m := accumulated (new_coeff_m qc)
         (\<lambda>I. concat (map (\<lambda>i. concat (map (\<lambda>j.
              map (\<lambda>J. gate qg i j * coeff_m qc ! J)
                (filter (\<lambda>J. of_bool (bit J (control qg)) = fst (tqb ! j)
                            \<and> of_bool (bit J (target qg)) = snd (tqb ! j)
                            \<and> put_bit (target qg) (snd (tqb ! i) \<noteq> 0)
                                 (put_bit (control qg) (fst (tqb ! i) \<noteq> 0) J) = I)
                   [0..<2 ^ nat (nqubit_m qc)]))
              [0..<4])) [0..<4]))\<rparr>)"
  unfolding apply_2qubit_gate_def wf_qcD(4) [OF wf]
proof (rule for_each_accumulated [where c = "coeff_m qc" and n = "2 ^ nat (nqubit_m qc)"])
  fix i and q :: "'a QuantumComputer"
  assume i: "i \<in> set [0..<4]"
    and q: "coeff_m q = coeff_m qc" "length (new_coeff_m q) = 2 ^ nat (nqubit_m qc)"
  have gi: "vec_get tqb i = Some (tqb ! i)"
    using i tqb by (simp add: vec_get_Some)
  have inner: "for_each (\<lambda>j q1. do {
             cj \<leftarrow> vec_get tqb j;
             let j_c = fst cj;
             let j_t = snd cj;
             let op_i_j = gate qg i j;
             for_each (\<lambda>basis_J q.
                 if of_bool (get_bit basis_J (control qg)) = j_c
                    \<and> of_bool (get_bit basis_J (target qg)) = j_t then
                   let basis_I = set_bit_basis (control qg) (fst (tqb ! i) \<noteq> 0) basis_J;
                       basis_I = set_bit_basis (target qg) (snd (tqb ! i) \<noteq> 0) basis_I
                   in accumulate (add basis_I) op_i_j (add basis_J) q
                 else Some q)
               (map Basis_of [0..<2 ^ nat (nqubit_m qc)]) q1
           }) [0..<4] q
      = Some (q\<lparr>new_coeff_m := accumulated (new_coeff_m q)
          (\<lambda>I. concat (map (\<lambda>j. map (\<lambda>J. gate qg i j * coeff_m qc ! J)
                (filter (\<lambda>J. of_bool (bit J (control qg)) = fst (tqb ! j)
                            \<and> of_bool (bit J (target qg)) = snd (tqb ! j)
                            \<and> put_bit (target qg) (snd (tqb ! i) \<noteq> 0)
                                 (put_bit (control qg) (fst (tqb ! i) \<noteq> 0) J) = I)
                   [0..<2 ^ nat (nqubit_m qc)])) [0..<4]))\<rparr>)"
  proof (rule for_each_accumulated [where c = "coeff_m qc" and n = "2 ^ nat (nqubit_m qc)"])
    fix j and q' :: "'a QuantumComputer"
    assume j: "j \<in> set [0..<4]"
      and q': "coeff_m q' = coeff_m qc" "length (new_coeff_m q') = 2 ^ nat (nqubit_m qc)"
    have gj: "vec_get tqb j = Some (tqb ! j)"
      using j tqb by (simp add: vec_get_Some)
    have len: "length (coeff_m q') = 2 ^ nat (nqubit_m qc)"
      using q'(1) wf_qcD(2) [OF wf] by simp
    show "do {
             cj \<leftarrow> vec_get tqb j;
             let j_c = fst cj;
             let j_t = snd cj;
             let op_i_j = gate qg i j;
             for_each (\<lambda>basis_J q.
                 if of_bool (get_bit basis_J (control qg)) = j_c
                    \<and> of_bool (get_bit basis_J (target qg)) = j_t then
                   let basis_I = set_bit_basis (control qg) (fst (tqb ! i) \<noteq> 0) basis_J;
                       basis_I = set_bit_basis (target qg) (snd (tqb ! i) \<noteq> 0) basis_I
                   in accumulate (add basis_I) op_i_j (add basis_J) q
                 else Some q)
               (map Basis_of [0..<2 ^ nat (nqubit_m qc)]) q'
           }
      = Some (q'\<lparr>new_coeff_m := accumulated (new_coeff_m q')
          (\<lambda>I. map (\<lambda>J. gate qg i j * coeff_m qc ! J)
                (filter (\<lambda>J. of_bool (bit J (control qg)) = fst (tqb ! j)
                            \<and> of_bool (bit J (target qg)) = snd (tqb ! j)
                            \<and> put_bit (target qg) (snd (tqb ! i) \<noteq> 0)
                                 (put_bit (control qg) (fst (tqb ! i) \<noteq> 0) J) = I)
                   [0..<2 ^ nat (nqubit_m qc)]))\<rparr>)"
      using two_qubit_pass [OF q'(2) len wf_qcD(3) [OF wf] c t,
          of "fst (tqb ! j)" "snd (tqb ! j)" "fst (tqb ! i)" "snd (tqb ! i)" "gate qg i j"]
      unfolding gj q'(1) by (simp add: Let_def)
  qed (rule q)+
  show "do {
         ci \<leftarrow> vec_get tqb i;
         let i_c = fst ci;
         let i_t = snd ci;
         for_each (\<lambda>j q1. do {
             cj \<leftarrow> vec_get tqb j;
             let j_c = fst cj;
             let j_t = snd cj;
             let op_i_j = gate qg i j;
             for_each (\<lambda>basis_J q.
                 if of_bool (get_bit basis_J (control qg)) = j_c
                    \<and> of_bool (get_bit basis_J (target qg)) = j_t then
                   let basis_I = set_bit_basis (control qg) (i_c \<noteq> 0) basis_J;
                       basis_I = set_bit_basis (target qg) (i_t \<noteq> 0) basis_I
                   in accumulate (add basis_I) op_i_j (add basis_J) q
                 else Some q)
               (map Basis_of [0..<2 ^ nat (nqubit_m qc)]) q1
           })
           [0..<4] q
       }
      = Some (q\<lparr>new_coeff_m := accumulated (new_coeff_m q)
          (\<lambda>I. concat (map (\<lambda>j. map (\<lambda>J. gate qg i j * coeff_m qc ! J)
                (filter (\<lambda>J. of_bool (bit J (control qg)) = fst (tqb ! j)
                            \<and> of_bool (bit J (target qg)) = snd (tqb ! j)
                            \<and> put_bit (target qg) (snd (tqb ! i) \<noteq> 0)
                                 (put_bit (control qg) (fst (tqb ! i) \<noteq> 0) J) = I)
                   [0..<2 ^ nat (nqubit_m qc)])) [0..<4]))\<rparr>)"
    unfolding gi using inner by (simp add: Let_def)
qed (simp_all add: wf_qcD [OF wf])

text \<open>
  C7. On a register that satisfies the invariant, for a control and a target qubit below
  the qubit count and a table of at least four combinations, the two-qubit scan
  returns, leaves every member but the scratch vector as it was, and leaves in entry
  \<open>I\<close> of the scratch vector its old value plus, in loop order, the amounts
  \<open>op[i][j] * coeff[J]\<close> for exactly the triples \<open>(i, j, J)\<close> such that the (control,
  target) bits of \<open>J\<close> are combination \<open>j\<close> and \<open>J\<close> with its (control, target) bits
  overwritten by combination \<open>i\<close> is \<open>I\<close>. Nothing else is added.
\<close>

theorem apply_2qubit_gate_accumulates:
  assumes wf: "wf_qc qc" and c: "control qg < nat (nqubit_m qc)"
    and t: "target qg < nat (nqubit_m qc)" and tqb: "4 \<le> length tqb"
  shows "\<exists>qc'. apply_2qubit_gate tqb qg qc = Some qc'
     \<and> coeff_m qc' = coeff_m qc \<and> basis_m qc' = basis_m qc
     \<and> nqubit_m qc' = nqubit_m qc \<and> nbasis_m qc' = nbasis_m qc
     \<and> length (new_coeff_m qc') = nbasis_m qc
     \<and> (\<forall>I < nbasis_m qc.
          new_coeff_m qc' ! I
            = foldl (+) (new_coeff_m qc ! I)
                [gate qg i j * coeff_m qc ! J.
                   i \<leftarrow> [0..<4], j \<leftarrow> [0..<4], J \<leftarrow> [0..<nbasis_m qc],
                   of_bool (bit J (control qg)) = fst (tqb ! j)
                   \<and> of_bool (bit J (target qg)) = snd (tqb ! j)
                   \<and> put_bit (target qg) (snd (tqb ! i) \<noteq> 0)
                        (put_bit (control qg) (fst (tqb ! i) \<noteq> 0) J) = I])"
proof -
  let ?N = "nat (nqubit_m qc)"
  let ?P = "\<lambda>I i j J. of_bool (bit J (control qg)) = fst (tqb ! j)
                   \<and> of_bool (bit J (target qg)) = snd (tqb ! j)
                   \<and> put_bit (target qg) (snd (tqb ! i) \<noteq> 0)
                        (put_bit (control qg) (fst (tqb ! i) \<noteq> 0) J) = I"
  let ?L = "\<lambda>I. concat (map (\<lambda>i. concat (map (\<lambda>j.
              map (\<lambda>J. gate qg i j * coeff_m qc ! J) (filter (?P I i j) [0..<2 ^ ?N]))
              [0..<4])) [0..<4])"
  define qc' where "qc' = qc\<lparr>new_coeff_m := accumulated (new_coeff_m qc) ?L\<rparr>"
  have res: "apply_2qubit_gate tqb qg qc = Some qc'"
    unfolding qc'_def by (rule apply_2qubit_gate_accumulated [OF wf c t tqb])
  have nb: "nbasis_m qc = 2 ^ ?N" "length (new_coeff_m qc) = 2 ^ ?N"
    using wf_qcD [OF wf] by simp_all
  have sel: "coeff_m qc' = coeff_m qc" "basis_m qc' = basis_m qc"
    "nqubit_m qc' = nqubit_m qc" "nbasis_m qc' = nbasis_m qc"
    "length (new_coeff_m qc') = nbasis_m qc"
    by (simp_all add: qc'_def nb)
  have val: "new_coeff_m qc' ! I
      = foldl (+) (new_coeff_m qc ! I)
          [gate qg i j * coeff_m qc ! J.
             i \<leftarrow> [0..<4], j \<leftarrow> [0..<4], J \<leftarrow> [0..<nbasis_m qc], ?P I i j J]"
    if "I < nbasis_m qc" for I
  proof -
    have "new_coeff_m qc' ! I = foldl (+) (new_coeff_m qc ! I) (?L I)"
      using that by (simp add: qc'_def nb)
    also have "?L I = [gate qg i j * coeff_m qc ! J.
             i \<leftarrow> [0..<4], j \<leftarrow> [0..<4], J \<leftarrow> [0..<nbasis_m qc], ?P I i j J]"
      unfolding nb(1)
      by (rule comp3 [where f = "\<lambda>i j J. gate qg i j * coeff_m qc ! J" and P = "?P I", symmetric])
    finally show ?thesis .
  qed
  show ?thesis
    using res sel val by blast
qed

lemma list4: "xs = [xs ! 0, xs ! 1, xs ! 2, xs ! 3]" if "length xs = 4" for xs :: "'x list"
  using that by (auto simp: list_eq_iff_nth_eq nth_Cons' less_Suc_eq numeral_eq_Suc)

theorem apply_2qubit_gate_accumulates_witness:
  "wf_qc \<lparr>nqubit_m = 2, nbasis_m = 4, basis_m = [Basis 0, Basis 1, Basis 2, Basis 3],
          coeff_m = [0, 0, 1, 0 :: complex], new_coeff_m = [0, 0, 0, 0]\<rparr> \<and>
   (1::nat) < nat 2 \<and> (0::nat) < nat 2 \<and> 4 \<le> length two_qubits_basis \<and>
   map_option new_coeff_m
     (apply_2qubit_gate two_qubits_basis
        \<lparr>nqubits = 2, target = 0, control = 1,
         gate = (\<lambda>i j. [[1, 0, 0, 0], [0, 1, 0, 0], [0, 0, 0, 1], [0, 0, 1, 0 :: complex]] ! i ! j)\<rparr>
        \<lparr>nqubit_m = 2, nbasis_m = 4, basis_m = [Basis 0, Basis 1, Basis 2, Basis 3],
         coeff_m = [0, 0, 1, 0 :: complex], new_coeff_m = [0, 0, 0, 0]\<rparr>) = Some [0, 0, 0, 1]"
proof -
  let ?qc = "\<lparr>nqubit_m = 2, nbasis_m = 4, basis_m = [Basis 0, Basis 1, Basis 2, Basis 3],
          coeff_m = [0, 0, 1, 0 :: complex], new_coeff_m = [0, 0, 0, 0]\<rparr>"
  let ?qg = "\<lparr>nqubits = 2, target = 0, control = 1,
         gate = (\<lambda>i j. [[1, 0, 0, 0], [0, 1, 0, 0], [0, 0, 0, 1], [0, 0, 1, 0 :: complex]] ! i ! j)\<rparr>"
  let ?R = "\<lambda>I. foldl (+) (new_coeff_m ?qc ! I)
                [gate ?qg i j * coeff_m ?qc ! J.
                   i \<leftarrow> [0..<4], j \<leftarrow> [0..<4], J \<leftarrow> [0..<nbasis_m ?qc],
                   of_bool (bit J (control ?qg)) = fst (two_qubits_basis ! j)
                   \<and> of_bool (bit J (target ?qg)) = snd (two_qubits_basis ! j)
                   \<and> put_bit (target ?qg) (snd (two_qubits_basis ! i) \<noteq> 0)
                        (put_bit (control ?qg) (fst (two_qubits_basis ! i) \<noteq> 0) J) = I]"
  have up: "[0..<4] = [0, 1, 2, 3]" by code_simp
  have wf: "wf_qc ?qc"
    by (simp add: wf_qc_def Basis_of_def up)
  have c: "control ?qg < nat (nqubit_m ?qc)" and t: "target ?qg < nat (nqubit_m ?qc)" by simp_all
  have tqb: "4 \<le> length two_qubits_basis" by (simp add: two_qubits_basis_def)
  obtain qc' where qc': "apply_2qubit_gate two_qubits_basis ?qg ?qc = Some qc'"
    "length (new_coeff_m qc') = nbasis_m ?qc"
    "\<forall>I < nbasis_m ?qc. new_coeff_m qc' ! I = ?R I"
    using apply_2qubit_gate_accumulates [OF wf c t tqb] by blast
  have R: "?R 0 = 0" "?R 1 = 0" "?R 2 = 0" "?R 3 = 1"
    by code_simp+
  have "new_coeff_m qc' ! 0 = 0" "new_coeff_m qc' ! 1 = 0"
    "new_coeff_m qc' ! 2 = 0" "new_coeff_m qc' ! 3 = 1"
    using qc'(3) R by simp_all
  moreover have "length (new_coeff_m qc') = 4" using qc'(2) by simp
  ultimately have "new_coeff_m qc' = [0, 0, 0, 1]"
    using list4 [of "new_coeff_m qc'"] by simp
  then show ?thesis
    using wf tqb qc'(1) by simp
qed

section \<open>The insertion variant for one qubit\<close>

lemma bit_ins_bit: "bit (ins_bit t K) k \<longleftrightarrow> (if k < t then bit K k else t < k \<and> bit K (k - 1))"
proof -
  have "t + (k - Suc t) = k - 1" if "Suc t \<le> k"
    using that by simp
  then show ?thesis
    unfolding ins_bit_def bit_or_iff bit_take_bit_iff bit_push_bit_iff bit_drop_bit_eq
    by (auto simp: Suc_le_eq)
qed

lemma bit_del_bit: "bit (del_bit t I) k \<longleftrightarrow> (if k < t then bit I k else bit I (Suc k))"
  unfolding del_bit_def bit_or_iff bit_take_bit_iff bit_push_bit_iff bit_drop_bit_eq
  by auto

lemma del_put_ins: "del_bit t (put_bit t v (ins_bit t K)) = K"
  by (rule bit_eqI) (auto simp: bit_del_bit bit_put_bit bit_ins_bit)

lemma ins_del: "put_bit t v (ins_bit t (del_bit t I)) = put_bit t v I"
proof (rule bit_eqI)
  fix k
  show "bit (put_bit t v (ins_bit t (del_bit t I))) k = bit (put_bit t v I) k"
  proof (cases "k = t")
    case True
    then show ?thesis by (simp add: bit_put_bit)
  next
    case False
    then have "k < t \<or> t < k" by auto
    then show ?thesis
    proof
      assume "k < t"
      then show ?thesis by (simp add: bit_put_bit bit_ins_bit bit_del_bit)
    next
      assume "t < k"
      then have "\<not> k < t" "\<not> k - 1 < t" "Suc (k - 1) = k" "k \<noteq> t" by auto
      then show ?thesis using \<open>t < k\<close> by (simp add: bit_put_bit bit_ins_bit bit_del_bit)
    qed
  qed
qed

lemma del_bit_less: "I < 2 ^ N \<Longrightarrow> t < N \<Longrightarrow> del_bit t I < 2 ^ (N - 1)"
  by (auto simp: nat_less_pow2_iff bit_del_bit split: if_splits)

lemma put_ins_less: "K < 2 ^ (N - 1) \<Longrightarrow> t < N \<Longrightarrow> put_bit t v (ins_bit t K) < 2 ^ N"
  by (auto simp: nat_less_pow2_iff bit_put_bit bit_ins_bit split: if_splits)

lemma get_bit_Basis_of_iff: "get_bit (Basis_of K) k \<longleftrightarrow> k < 64 \<and> bit K k"
  by (simp add: get_bit_def Basis_of_def bit_of_nat_iff)

lemma Basis_eq_Basis_of:
  assumes "\<And>k. k < 64 \<Longrightarrow> get_bit b k \<longleftrightarrow> bit n k"
  shows "b = Basis_of n"
proof (cases b)
  case (Basis w)
  have "w = of_nat n"
  proof (rule bit_eqI)
    fix k assume "possible_bit TYPE(64 word) k"
    then have k: "k < 64" by simp
    show "bit w k = bit (of_nat n :: 64 word) k"
      using assms [OF k] k by (simp add: Basis get_bit_def bit_of_nat_iff)
  qed
  then show ?thesis by (simp add: Basis Basis_of_def)
qed

lemma inserted_index:
  assumes t31: "t < 31" and K: "K < 2 ^ (N - 1)" and t: "t < N" and N: "N \<le> 64"
  shows "\<exists>basis_K. insert_basis t (Basis_of K) = Some basis_K
     \<and> add (set_bit_basis t v basis_K) = put_bit t v (ins_bit t K)"
proof -
  obtain b' where b': "insert_basis t (Basis_of K) = Some b'"
    "\<And>k. get_bit b' k \<longleftrightarrow>
        (if k < t then get_bit (Basis_of K) k
         else k \<noteq> 0 \<and> k < 64 \<and> get_bit (Basis_of K) (k - 1))"
    using insert_basis_bits [OF t31, of "Basis_of K"] by blast
  have "set_bit_basis t v b' = Basis_of (put_bit t v (ins_bit t K))"
  proof (rule Basis_eq_Basis_of)
    fix k :: nat assume k: "k < 64"
    show "get_bit (set_bit_basis t v b') k = bit (put_bit t v (ins_bit t K)) k"
      using k t31
      by (auto simp: get_bit_set_bit_basis b'(2) get_bit_Basis_of_iff bit_put_bit bit_ins_bit)
  qed
  moreover have "put_bit t v (ins_bit t K) < 2 ^ 64"
  proof -
    have "put_bit t v (ins_bit t K) < 2 ^ N" using K t by (rule put_ins_less)
    also have "(2::nat) ^ N \<le> 2 ^ 64" using N by (intro power_increasing) simp_all
    finally show ?thesis .
  qed
  ultimately show ?thesis
    using b'(1) by (simp add: add_Basis_of)
qed

lemma for_each_cong:
  "(\<And>x s. x \<in> set xs \<Longrightarrow> f x s = g x s) \<Longrightarrow> for_each f xs s = for_each g xs s"
  by (induction xs arbitrary: s) (auto split: option.splits)

lemma loop_accumulate_all:
  assumes "\<forall>x \<in> set xs. idx x < length (new_coeff_m q) \<and> src x < length (coeff_m q)"
  shows "for_each (\<lambda>x q. accumulate (idx x) (opv x) (src x) q) xs q
     = Some (q\<lparr>new_coeff_m := accumulated (new_coeff_m q)
          (\<lambda>I. map (\<lambda>x. opv x * coeff_m q ! src x) (filter (\<lambda>x. idx x = I) xs))\<rparr>)"
  using loop_accumulate [of xs "\<lambda>_. True" idx q src opv] assms by simp

text \<open>One pass of the insertion variant: the matrix entry \<open>(i, j)\<close>.\<close>

lemma insertion_pass:
  assumes len: "length (new_coeff_m q) = 2 ^ N" "length (coeff_m q) = 2 ^ N" "N \<le> 64"
    and t: "t < N" and t31: "t < 31"
  shows "for_each (\<lambda>K q.
             case insert_basis t (Basis_of K) of
               None \<Rightarrow> None
             | Some basis_K \<Rightarrow>
                 let basis_I = set_bit_basis t (i \<noteq> 0) basis_K;
                     basis_J = set_bit_basis t (j \<noteq> 0) basis_K
                 in accumulate (add basis_I) op_i_j (add basis_J) q)
           [0..<2 ^ (N - 1)] q
     = Some (q\<lparr>new_coeff_m := accumulated (new_coeff_m q)
          (\<lambda>I. map (\<lambda>K. op_i_j * coeff_m q ! put_bit t (j \<noteq> 0) (ins_bit t K))
                 (filter (\<lambda>K. put_bit t (i \<noteq> 0) (ins_bit t K) = I) [0..<2 ^ (N - 1)]))\<rparr>)"
proof -
  let ?body = "\<lambda>K q.
             case insert_basis t (Basis_of K) of
               None \<Rightarrow> None
             | Some basis_K \<Rightarrow>
                 let basis_I = set_bit_basis t (i \<noteq> 0) basis_K;
                     basis_J = set_bit_basis t (j \<noteq> 0) basis_K
                 in accumulate (add basis_I) op_i_j (add basis_J) q"
  let ?body' = "\<lambda>K q. accumulate (put_bit t (i \<noteq> 0) (ins_bit t K)) op_i_j
                  (put_bit t (j \<noteq> 0) (ins_bit t K)) q"
  have body: "?body K q' = ?body' K q'" if "K \<in> set [0..<2 ^ (N - 1)]" for K q'
  proof -
    have K: "K < 2 ^ (N - 1)" using that by simp
    obtain b where b: "insert_basis t (Basis_of K) = Some b"
      "add (set_bit_basis t (i \<noteq> 0) b) = put_bit t (i \<noteq> 0) (ins_bit t K)"
      using inserted_index [OF t31 K t len(3), of "i \<noteq> 0"] by blast
    obtain b2 where b2: "insert_basis t (Basis_of K) = Some b2"
      "add (set_bit_basis t (j \<noteq> 0) b2) = put_bit t (j \<noteq> 0) (ins_bit t K)"
      using inserted_index [OF t31 K t len(3), of "j \<noteq> 0"] by blast
    have "b2 = b" using b(1) b2(1) by simp
    then show ?thesis using b b2 by (simp add: Let_def)
  qed
  have "for_each ?body [0..<2 ^ (N - 1)] q = for_each ?body' [0..<2 ^ (N - 1)] q"
    by (rule for_each_cong) (rule body)
  also have "\<dots> = Some (q\<lparr>new_coeff_m := accumulated (new_coeff_m q)
          (\<lambda>I. map (\<lambda>K. op_i_j * coeff_m q ! put_bit t (j \<noteq> 0) (ins_bit t K))
                 (filter (\<lambda>K. put_bit t (i \<noteq> 0) (ins_bit t K) = I) [0..<2 ^ (N - 1)]))\<rparr>)"
    by (rule loop_accumulate_all) (simp add: len put_ins_less [OF _ t])
  finally show ?thesis .
qed

lemma accumulated_cong:
  "(\<And>I. I < length nc \<Longrightarrow> L I = L' I) \<Longrightarrow> accumulated nc L = accumulated nc L'"
  by (simp add: accumulated_def)

text \<open>The spectator configurations that one pass of the insertion variant sends to a given index.\<close>

lemma insertion_sources:
  assumes "I < 2 ^ N" "t < N"
  shows "filter (\<lambda>K. put_bit t ib (ins_bit t K) = I) [0..<2 ^ (N - 1)]
     = (if bit I t = ib then [del_bit t I] else [])"
proof (cases "bit I t = ib")
  case True
  have "put_bit t ib (ins_bit t K) = I \<longleftrightarrow> K = del_bit t I" for K
  proof
    assume "put_bit t ib (ins_bit t K) = I"
    then have "del_bit t I = del_bit t (put_bit t ib (ins_bit t K))" by simp
    then show "K = del_bit t I" by (simp only: del_put_ins)
  next
    assume K: "K = del_bit t I"
    have "put_bit t ib (ins_bit t K) = put_bit t (bit I t) I"
      unfolding K ins_del True ..
    then show "put_bit t ib (ins_bit t K) = I" by (simp only: put_bit_same)
  qed
  then have "filter (\<lambda>K. put_bit t ib (ins_bit t K) = I) [0..<2 ^ (N - 1)] = [del_bit t I]"
    by (intro filter_upt_unique del_bit_less assms)
  with True show ?thesis by simp
next
  case False
  have "put_bit t ib (ins_bit t K) \<noteq> I" for K
  proof
    assume "put_bit t ib (ins_bit t K) = I"
    then have "bit I t = bit (put_bit t ib (ins_bit t K)) t" by simp
    with False show False by (simp only: bit_put_bit_self)
  qed
  then have "filter (\<lambda>K. put_bit t ib (ins_bit t K) = I) [0..<2 ^ (N - 1)] = []"
    by (intro filter_upt_none)
  with False show ?thesis by simp
qed

text \<open>One pass of the insertion variant adds what the same pass of the dense scan adds.\<close>

lemma insertion_pass_dense:
  fixes j :: nat
  assumes len: "length (new_coeff_m q) = 2 ^ N" "length (coeff_m q) = 2 ^ N" "N \<le> 64"
    and t: "t < N" and t31: "t < 31" and j: "j < 2"
  shows "for_each (\<lambda>K q.
             case insert_basis t (Basis_of K) of
               None \<Rightarrow> None
             | Some basis_K \<Rightarrow>
                 let basis_I = set_bit_basis t (i \<noteq> 0) basis_K;
                     basis_J = set_bit_basis t (j \<noteq> 0) basis_K
                 in accumulate (add basis_I) op_i_j (add basis_J) q)
           [0..<2 ^ (N - 1)] q
     = Some (q\<lparr>new_coeff_m := accumulated (new_coeff_m q)
          (\<lambda>I. map (\<lambda>J. op_i_j * coeff_m q ! J)
                 (filter (\<lambda>J. of_bool (bit J t) = j \<and> put_bit t (i \<noteq> 0) J = I) [0..<2 ^ N]))\<rparr>)"
proof -
  have "accumulated (new_coeff_m q)
          (\<lambda>I. map (\<lambda>K. op_i_j * coeff_m q ! put_bit t (j \<noteq> 0) (ins_bit t K))
                 (filter (\<lambda>K. put_bit t (i \<noteq> 0) (ins_bit t K) = I) [0..<2 ^ (N - 1)]))
      = accumulated (new_coeff_m q)
          (\<lambda>I. map (\<lambda>J. op_i_j * coeff_m q ! J)
                 (filter (\<lambda>J. of_bool (bit J t) = j \<and> put_bit t (i \<noteq> 0) J = I) [0..<2 ^ N]))"
  proof (rule accumulated_cong)
    fix I assume "I < length (new_coeff_m q)"
    then have I: "I < 2 ^ N" using len by simp
    show "map (\<lambda>K. op_i_j * coeff_m q ! put_bit t (j \<noteq> 0) (ins_bit t K))
                 (filter (\<lambda>K. put_bit t (i \<noteq> 0) (ins_bit t K) = I) [0..<2 ^ (N - 1)])
        = map (\<lambda>J. op_i_j * coeff_m q ! J)
                 (filter (\<lambda>J. of_bool (bit J t) = j \<and> put_bit t (i \<noteq> 0) J = I) [0..<2 ^ N])"
      unfolding insertion_sources [OF I t] dense_sources_nat [OF I t j]
      by (simp add: ins_del)
  qed
  then show ?thesis
    unfolding insertion_pass [OF len t t31] by simp
qed

lemma pow2_size_t_pred:
  "1 \<le> n \<Longrightarrow> n < 64 \<Longrightarrow> pow2_size_t (n - 1) = Some (2 ^ (nat n - 1))"
  by (simp add: pow2_size_t_def nat_diff_distrib)

text \<open>
  For a target qubit below 31 the insertion variant returns what the dense scan
  returns, on every register of at least one qubit that satisfies the invariant.
\<close>

lemma insertion_eq_dense:
  assumes wf: "wf_qc qc" and N1: "1 \<le> nqubit_m qc"
    and t: "target qg < nat (nqubit_m qc)" and t31: "target qg < 31"
  shows "apply_1qubit_gate_insertion qg qc = apply_1qubit_gate qg qc"
proof -
  have p: "pow2_size_t (nqubit_m qc - 1) = Some (2 ^ (nat (nqubit_m qc) - 1))"
    using wf N1 by (intro pow2_size_t_pred) (simp_all add: wf_qc_def)
  have "apply_1qubit_gate_insertion qg qc
     = Some (qc\<lparr>new_coeff_m := accumulated (new_coeff_m qc)
         (\<lambda>I. concat (map (\<lambda>i. concat (map (\<lambda>j.
              map (\<lambda>J. gate qg i j * coeff_m qc ! J)
                (filter (\<lambda>J. of_bool (bit J (target qg)) = j \<and> put_bit (target qg) (i \<noteq> 0) J = I)
                   [0..<2 ^ nat (nqubit_m qc)]))
              [0..<2])) [0..<2]))\<rparr>)"
    unfolding apply_1qubit_gate_insertion_def p option.case Let_def
  proof (rule for_each_accumulated [where c = "coeff_m qc" and n = "2 ^ nat (nqubit_m qc)"])
    fix i and q :: "'a QuantumComputer"
    assume q: "coeff_m q = coeff_m qc" "length (new_coeff_m q) = 2 ^ nat (nqubit_m qc)"
    show "for_each (\<lambda>j. for_each (\<lambda>K q.
             case insert_basis (target qg) (Basis_of K) of
               None \<Rightarrow> None
             | Some basis_K \<Rightarrow>
                 accumulate (add (set_bit_basis (target qg) (i \<noteq> 0) basis_K)) (gate qg i j)
                   (add (set_bit_basis (target qg) (j \<noteq> 0) basis_K)) q)
           [0..<2 ^ (nat (nqubit_m qc) - 1)]) [0..<2] q
      = Some (q\<lparr>new_coeff_m := accumulated (new_coeff_m q)
          (\<lambda>I. concat (map (\<lambda>j. map (\<lambda>J. gate qg i j * coeff_m qc ! J)
                (filter (\<lambda>J. of_bool (bit J (target qg)) = j \<and> put_bit (target qg) (i \<noteq> 0) J = I)
                   [0..<2 ^ nat (nqubit_m qc)])) [0..<2]))\<rparr>)"
    proof (rule for_each_accumulated [where c = "coeff_m qc" and n = "2 ^ nat (nqubit_m qc)"])
      fix j and q' :: "'a QuantumComputer"
      assume j: "j \<in> set [0..<2]"
        and q': "coeff_m q' = coeff_m qc" "length (new_coeff_m q') = 2 ^ nat (nqubit_m qc)"
      have j2: "j < 2" using j by simp
      have len: "length (coeff_m q') = 2 ^ nat (nqubit_m qc)"
        using q'(1) wf_qcD(2) [OF wf] by simp
      show "for_each (\<lambda>K q.
             case insert_basis (target qg) (Basis_of K) of
               None \<Rightarrow> None
             | Some basis_K \<Rightarrow>
                 accumulate (add (set_bit_basis (target qg) (i \<noteq> 0) basis_K)) (gate qg i j)
                   (add (set_bit_basis (target qg) (j \<noteq> 0) basis_K)) q)
           [0..<2 ^ (nat (nqubit_m qc) - 1)] q'
        = Some (q'\<lparr>new_coeff_m := accumulated (new_coeff_m q')
          (\<lambda>I. map (\<lambda>J. gate qg i j * coeff_m qc ! J)
                (filter (\<lambda>J. of_bool (bit J (target qg)) = j \<and> put_bit (target qg) (i \<noteq> 0) J = I)
                   [0..<2 ^ nat (nqubit_m qc)]))\<rparr>)"
        using insertion_pass_dense [OF q'(2) len wf_qcD(3) [OF wf] t t31 j2, of i "gate qg i j"]
        unfolding Let_def q'(1) .
    qed (rule q)+
  qed (simp_all add: wf_qcD [OF wf])
  then show ?thesis
    unfolding apply_1qubit_gate_accumulated [OF wf t] .
qed

lemma QuantumComputer_new_wf:
  assumes "0 \<le> N" "N < 64"
  shows "\<exists>qc. (QuantumComputer_new N :: ('a::{zero,one}) QuantumComputer option) = Some qc
     \<and> wf_qc qc \<and> nqubit_m qc = N"
  unfolding QuantumComputer_new_eq [OF assms] using assms by (simp add: wf_qc_def)

lemma upt_pow2_Cons: "[0..<2 ^ k] = 0 # [Suc 0..<2 ^ k]"
  by (simp add: upt_conv_Cons)

lemma insertion_undefined:
  assumes N1: "1 \<le> nqubit_m qc" and N: "nqubit_m qc < 64" and t: "31 \<le> target qg"
  shows "apply_1qubit_gate_insertion qg qc = None"
proof -
  have p: "pow2_size_t (nqubit_m qc - 1) = Some (2 ^ (nat (nqubit_m qc) - 1))"
    using N1 N by (rule pow2_size_t_pred)
  have ins: "insert_basis (target qg) (Basis_of 0) = None"
    using t by (rule insert_basis_None)
  show ?thesis
    unfolding apply_1qubit_gate_insertion_def p option.case upt_2 Let_def
    by (subst upt_pow2_Cons) (simp add: ins)
qed

text \<open>
  C2 fails from target qubit 31 on: the insertion variant evaluates the
  \<^verbatim>\<open>int\<close> expression \<^verbatim>\<open>(1 << target) - 1\<close>, which is undefined there, while the dense scan
  returns.
\<close>

theorem insertion_diverges:
  assumes wf: "wf_qc qc" and N1: "1 \<le> nqubit_m qc"
    and t: "target qg < nat (nqubit_m qc)" and t31: "31 \<le> target qg"
  shows "apply_1qubit_gate_insertion qg qc = None \<and> (\<exists>qc'. apply_1qubit_gate qg qc = Some qc')"
proof -
  have "nqubit_m qc < 64" using wf by (simp add: wf_qc_def)
  then have "apply_1qubit_gate_insertion qg qc = None"
    using N1 t31 by (intro insertion_undefined)
  then show ?thesis
    unfolding apply_1qubit_gate_accumulated [OF wf t] by simp
qed

theorem insertion_diverges_witness:
  "\<exists>qc :: complex QuantumComputer.
     QuantumComputer_new 33 = Some qc \<and> wf_qc qc \<and> 1 \<le> nqubit_m qc
     \<and> target \<lparr>nqubits = 1, target = 32, control = 0,
               gate = (\<lambda>i j. if i = j then 0 else (1::complex))\<rparr> < nat (nqubit_m qc)
     \<and> 31 \<le> target \<lparr>nqubits = 1, target = 32, control = 0,
               gate = (\<lambda>i j. if i = j then 0 else (1::complex))\<rparr>
     \<and> apply_1qubit_gate_insertion
          \<lparr>nqubits = 1, target = 32, control = 0,
           gate = (\<lambda>i j. if i = j then 0 else (1::complex))\<rparr> qc = None
     \<and> apply_1qubit_gate
          \<lparr>nqubits = 1, target = 32, control = 0,
           gate = (\<lambda>i j. if i = j then 0 else (1::complex))\<rparr> qc \<noteq> None"
proof -
  let ?qg = "\<lparr>nqubits = 1, target = 32, control = 0,
           gate = (\<lambda>i j. if i = j then 0 else (1::complex))\<rparr>"
  obtain qc :: "complex QuantumComputer" where
    qc: "QuantumComputer_new 33 = Some qc" "wf_qc qc" "nqubit_m qc = 33"
    using QuantumComputer_new_wf [of 33, where 'a = complex] by auto
  have h: "1 \<le> nqubit_m qc" "target ?qg < nat (nqubit_m qc)" "31 \<le> target ?qg"
    by (simp_all add: qc(3))
  have "apply_1qubit_gate_insertion ?qg qc = None \<and> apply_1qubit_gate ?qg qc \<noteq> None"
    using insertion_diverges [OF qc(2) h] by auto
  then show ?thesis
    using qc(1,2) h by blast
qed

end
